theory Spec2Isabelle
  imports Main "HOL-Library.Char_ord" "HOL-Library.List_Lexorder"
begin

section \<open>JavaScript values and their JSON-safe form\<close>

text \<open>
  A JavaScript number is not-a-number, an infinity, negative zero, or another finite
  number. \<open>Fin n\<close> is the number with the integer value \<open>n\<close>, positive zero for \<open>n = 0\<close>;
  it stands for a JavaScript number when \<open>n\<close> is a safe integer (\<open>safe_integer\<close> below),
  the range in which every integer is a number and is printed as a plain decimal
  numeral. Fractions and larger numbers are outside the model.
\<close>

datatype jsnum = NaN | PosInfinity | NegInfinity | NegZero | Fin int

definition safe_integer :: "int \<Rightarrow> bool" where
  "safe_integer n \<longleftrightarrow> - 9007199254740991 \<le> n \<and> n \<le> 9007199254740991"

text \<open>
  A number with its zero made positive: the two zeros are the same number for every
  comparison.
\<close>

fun positive_zero :: "jsnum \<Rightarrow> jsnum" where
  "positive_zero NegZero = Fin 0"
| "positive_zero a = a"

text \<open>Decimal digits and the number that a row of them denotes.\<close>

definition is_digit :: "char \<Rightarrow> bool" where
  "is_digit c \<longleftrightarrow> 48 \<le> (of_char c :: nat) \<and> (of_char c :: nat) \<le> 57"

definition nat_of_digits :: "string \<Rightarrow> nat" where
  "nat_of_digits ds = foldl (\<lambda>acc c. 10 * acc + (of_char c - 48)) 0 ds"

definition digits_value :: "string \<Rightarrow> int" where
  "digits_value ds = foldl (\<lambda>acc c. 10 * acc + (of_char c - 48)) 0 ds"

text \<open>
  A valid \<^verbatim>\<open>Date\<close> is represented by the text that \<^verbatim>\<open>toJSON\<close> returns for it; that text
  determines the time value and the \<^verbatim>\<open>Date\<close> constructor reads it back. For the years 0
  to 9999 the text has the form \<^verbatim>\<open>YYYY-MM-DDTHH:mm:ss.sssZ\<close> and names a day of the
  calendar and a time of that day (\<open>iso_text\<close>); \<open>ValidDate t\<close> stands for a date
  when \<open>t\<close> is such a text. Dates of other years are outside the model.
\<close>

datatype jsdate = ValidDate string | InvalidDate

definition days_in_month :: "int \<Rightarrow> int \<Rightarrow> int" where
  "days_in_month year month =
     (if month = 2 then
        (if year mod 4 = 0 \<and> (year mod 100 \<noteq> 0 \<or> year mod 400 = 0) then 29 else 28)
      else if month = 4 \<or> month = 6 \<or> month = 9 \<or> month = 11 then 30
      else 31)"

definition iso_text :: "string \<Rightarrow> bool" where
  "iso_text t \<longleftrightarrow>
     length t = 24
     \<and> list_all (\<lambda>i. is_digit (t ! i)) [0, 1, 2, 3, 5, 6, 8, 9, 11, 12, 14, 15, 17, 18, 20, 21, 22]
     \<and> t ! 4 = CHR ''-'' \<and> t ! 7 = CHR ''-'' \<and> t ! 10 = CHR ''T''
     \<and> t ! 13 = CHR '':'' \<and> t ! 16 = CHR '':'' \<and> t ! 19 = CHR ''.'' \<and> t ! 23 = CHR ''Z''
     \<and> 1 \<le> digits_value (take 2 (drop 5 t)) \<and> digits_value (take 2 (drop 5 t)) \<le> 12
     \<and> 1 \<le> digits_value (take 2 (drop 8 t))
     \<and> digits_value (take 2 (drop 8 t))
         \<le> days_in_month (digits_value (take 4 t)) (digits_value (take 2 (drop 5 t)))
     \<and> digits_value (take 2 (drop 11 t)) \<le> 23
     \<and> digits_value (take 2 (drop 14 t)) \<le> 59
     \<and> digits_value (take 2 (drop 17 t)) \<le> 59"

text \<open>
  The values the codec distinguishes (\<^verbatim>\<open>unknown\<close> in the source). A mapping is the list
  of its own properties as \<^verbatim>\<open>Object.entries\<close> lists them: each name once, the names that
  are array indices first, in ascending numeric order, then the other names in the order
  in which the properties were created (\<open>own_property_order\<close> below).
\<close>

datatype jsval =
    VUndefined
  | VNull
  | VBool bool
  | VNum jsnum
  | VStr string
  | VDate jsdate
  | VArr "jsval list"
  | VObj "(string \<times> jsval) list"

text \<open>
  A property name that is an array index: the decimal numeral, without leading zero, of
  a number below 4294967295.
\<close>

definition array_index :: "string \<Rightarrow> bool" where
  "array_index name \<longleftrightarrow>
     name \<noteq> [] \<and> list_all is_digit name \<and> (length name = 1 \<or> hd name \<noteq> CHR ''0'')
     \<and> digits_value name < 4294967295"

definition own_property_order :: "string list \<Rightarrow> bool" where
  "own_property_order names \<longleftrightarrow>
     distinct names
     \<and> names = filter array_index names @ filter (\<lambda>name. \<not> array_index name) names
     \<and> sorted_wrt (<) (map digits_value (filter array_index names))"

text \<open>
  The values of the model that stand for JavaScript values: finite numbers are safe
  integers, valid dates have the text of a date, and mappings list their properties as
  \<^verbatim>\<open>Object.entries\<close> does.
\<close>

primrec js_value :: "jsval \<Rightarrow> bool" where
  "js_value VUndefined = True"
| "js_value VNull = True"
| "js_value (VBool b) = True"
| "js_value (VNum n) = (case n of Fin i \<Rightarrow> safe_integer i | _ \<Rightarrow> True)"
| "js_value (VStr s) = True"
| "js_value (VDate d) = (case d of ValidDate t \<Rightarrow> iso_text t | InvalidDate \<Rightarrow> True)"
| "js_value (VArr xs) = list_all id (map js_value xs)"
| "js_value (VObj ps) =
     (own_property_order (map fst ps) \<and> list_all snd (map (map_prod id js_value) ps))"

text \<open>
  The JSON-safe values: what \<^verbatim>\<open>JSON.stringify\<close> prints and \<^verbatim>\<open>JSON.parse\<close> returns.
  \<open>JNum n\<close> is the number \<open>Fin n\<close>, \<open>JNegZero\<close> is negative zero.
\<close>

datatype json =
    JNull
  | JBool bool
  | JNum int
  | JNegZero
  | JStr string
  | JArr "json list"
  | JObj "(string \<times> json) list"

text \<open>A JSON-safe value read as a JavaScript value (it is one).\<close>

fun of_json :: "json \<Rightarrow> jsval" where
  "of_json JNull = VNull"
| "of_json (JBool b) = VBool b"
| "of_json (JNum n) = VNum (Fin n)"
| "of_json JNegZero = VNum NegZero"
| "of_json (JStr s) = VStr s"
| "of_json (JArr xs) = VArr (map of_json xs)"
| "of_json (JObj ps) = VObj (map (map_prod id of_json) ps)"

subsection \<open>serialization.ts: serializeValue and deserializeValue\<close>

text \<open>\<^verbatim>\<open>Date.prototype.toJSON\<close>: the ISO text, or null for an invalid date.\<close>

fun toJSON :: "jsdate \<Rightarrow> json" where
  "toJSON (ValidDate txt) = JStr txt"
| "toJSON InvalidDate = JNull"

fun serializeValue :: "jsval \<Rightarrow> json" where
  "serializeValue VUndefined = JObj [(''__type'', JStr ''undefined'')]"
| "serializeValue (VNum NaN) = JObj [(''__type'', JStr ''nan'')]"
| "serializeValue (VNum PosInfinity) = JObj [(''__type'', JStr ''infinity''), (''sign'', JNum 1)]"
| "serializeValue (VNum NegInfinity) = JObj [(''__type'', JStr ''infinity''), (''sign'', JNum (- 1))]"
| "serializeValue VNull = JNull"
| "serializeValue (VStr s) = JStr s"
| "serializeValue (VNum (Fin n)) = JNum n"
| "serializeValue (VNum NegZero) = JNegZero"
| "serializeValue (VBool b) = JBool b"
| "serializeValue (VDate d) = JObj [(''__type'', JStr ''date''), (''value'', toJSON d)]"
| "serializeValue (VArr xs) = JArr (map serializeValue xs)"
| "serializeValue (VObj ps) = JObj (map (map_prod id serializeValue) ps)"

text \<open>
  \<^verbatim>\<open>isTypeMarker\<close>: an object with a property \<^verbatim>\<open>__type\<close> whose value is a string. The
  function returns that string.
\<close>

fun isTypeMarker :: "json \<Rightarrow> string option" where
  "isTypeMarker (JObj ps) =
     (case map_of ps ''__type'' of Some (JStr t) \<Rightarrow> Some t | _ \<Rightarrow> None)"
| "isTypeMarker _ = None"

text \<open>
  \<^verbatim>\<open>new Date(value.value as string)\<close> on the \<^verbatim>\<open>value\<close> property of a date marker: the
  text of a date gives back that date, null gives the epoch and a missing property the
  invalid date, as does a string that is no date at all. The constructor also reads
  shorter forms of the text, formats of its implementation, numbers, booleans and
  objects; the model has no dates for them and maps them to the invalid date.
\<close>

fun newDate :: "json option \<Rightarrow> jsdate" where
  "newDate (Some (JStr txt)) = (if iso_text txt then ValidDate txt else InvalidDate)"
| "newDate (Some JNull) = ValidDate ''1970-01-01T00:00:00.000Z''"
| "newDate _ = InvalidDate"

fun deserializeValue :: "json \<Rightarrow> jsval" where
  "deserializeValue (JObj ps) =
     (case isTypeMarker (JObj ps) of
        Some t \<Rightarrow>
          if t = ''undefined'' then VUndefined
          else if t = ''nan'' then VNum NaN
          else if t = ''infinity'' then
            (if map_of ps ''sign'' = Some (JNum 1) then VNum PosInfinity else VNum NegInfinity)
          else if t = ''date'' then VDate (newDate (map_of ps ''value''))
          else of_json (JObj ps)
      | None \<Rightarrow> VObj (map (map_prod id deserializeValue) ps))"
| "deserializeValue JNull = VNull"
| "deserializeValue (JStr s) = VStr s"
| "deserializeValue (JNum n) = VNum (Fin n)"
| "deserializeValue JNegZero = VNum NegZero"
| "deserializeValue (JBool b) = VBool b"
| "deserializeValue (JArr xs) = VArr (map deserializeValue xs)"

subsection \<open>JSON text: JSON.stringify\<close>

abbreviation dquote :: char where
  "dquote \<equiv> CHR 0x22"

abbreviation backslash :: char where
  "backslash \<equiv> CHR 0x5C"

definition hex_digit :: "nat \<Rightarrow> char" where
  "hex_digit n = (if n < 10 then char_of (48 + n) else char_of (87 + n))"

text \<open>
  \<^verbatim>\<open>QuoteJSONString\<close>, one code unit at a time: the quote and the backslash are escaped,
  the control characters have a short escape or the form \<^verbatim>\<open>\u00xx\<close>, every other
  character stands for itself.
\<close>

definition escape_char :: "char \<Rightarrow> string" where
  "escape_char c =
     (if c = dquote then [backslash, dquote]
      else if c = backslash then [backslash, backslash]
      else if c = CHR 0x08 then [backslash, CHR ''b'']
      else if c = CHR 0x0C then [backslash, CHR ''f'']
      else if c = CHR 0x0A then [backslash, CHR ''n'']
      else if c = CHR 0x0D then [backslash, CHR ''r'']
      else if c = CHR 0x09 then [backslash, CHR ''t'']
      else if (of_char c :: nat) < 32 then
        [backslash, CHR ''u'', CHR ''0'', CHR ''0'',
         hex_digit (of_char c div 16), hex_digit (of_char c mod 16)]
      else [c])"

definition quote :: "string \<Rightarrow> string" where
  "quote s = dquote # concat (map escape_char s) @ [dquote]"

fun show_nat :: "nat \<Rightarrow> string" where
  "show_nat n =
     (if n < 10 then [char_of (48 + n)]
      else show_nat (n div 10) @ [char_of (48 + n mod 10)])"

declare show_nat.simps [simp del]

text \<open>
  The decimal numeral of an integer: what \<^verbatim>\<open>JSON.stringify\<close> prints for the number
  \<open>Fin n\<close> when \<open>n\<close> is a safe integer (larger numbers, printed with an exponent, are
  outside the model).
\<close>

definition show_int :: "int \<Rightarrow> string" where
  "show_int i = (if i < 0 then CHR ''-'' # show_nat (nat (- i)) else show_nat (nat i))"

text \<open>\<^verbatim>\<open>Array.prototype.join\<close> with the comma that \<^verbatim>\<open>JSON.stringify\<close> puts between members.\<close>

fun join :: "string list \<Rightarrow> string" where
  "join [] = []"
| "join [x] = x"
| "join (x # y # zs) = x @ CHR '','' # join (y # zs)"

fun JSON_stringify :: "json \<Rightarrow> string" where
  "JSON_stringify JNull = ''null''"
| "JSON_stringify (JBool b) = (if b then ''true'' else ''false'')"
| "JSON_stringify (JNum n) = show_int n"
| "JSON_stringify JNegZero = ''0''"
| "JSON_stringify (JStr s) = quote s"
| "JSON_stringify (JArr xs) = CHR ''['' # join (map JSON_stringify xs) @ '']''"
| "JSON_stringify (JObj ps) =
     CHR ''{'' # join (map (\<lambda>p. quote (fst p) @ CHR '':'' # JSON_stringify (snd p)) ps) @ ''}''"

subsection \<open>JSON text: JSON.parse\<close>

text \<open>
  The parser reads the grammar that \<^verbatim>\<open>JSON.stringify\<close> prints for the values above: no
  insignificant white space, integer numerals, escapes of characters below 256. On any
  other text it fails (\<^verbatim>\<open>None\<close>, the \<^verbatim>\<open>SyntaxError\<close> of the source), also where
  \<^verbatim>\<open>JSON.parse\<close> would accept more; the manager only ever parses text it printed.
\<close>

definition hex_val :: "char \<Rightarrow> nat option" where
  "hex_val c =
     (let n = (of_char c :: nat) in
      if 48 \<le> n \<and> n \<le> 57 then Some (n - 48)
      else if 97 \<le> n \<and> n \<le> 102 then Some (n - 87)
      else if 65 \<le> n \<and> n \<le> 70 then Some (n - 55)
      else None)"

definition simple_escape :: "char \<Rightarrow> char option" where
  "simple_escape e =
     (if e = dquote then Some dquote
      else if e = backslash then Some backslash
      else if e = CHR ''/'' then Some (CHR ''/'')
      else if e = CHR ''b'' then Some (CHR 0x08)
      else if e = CHR ''f'' then Some (CHR 0x0C)
      else if e = CHR ''n'' then Some (CHR 0x0A)
      else if e = CHR ''r'' then Some (CHR 0x0D)
      else if e = CHR ''t'' then Some (CHR 0x09)
      else None)"

definition unicode_escape :: "char \<Rightarrow> char \<Rightarrow> char \<Rightarrow> char \<Rightarrow> char option" where
  "unicode_escape a b c d =
     (case (hex_val a, hex_val b, hex_val c, hex_val d) of
        (Some h3, Some h2, Some h1, Some h0) \<Rightarrow>
          if h3 = 0 \<and> h2 = 0 then Some (char_of (16 * h1 + h0)) else None
      | _ \<Rightarrow> None)"

text \<open>The characters of a string literal after its opening quote, up to the closing one.\<close>

fun parse_string :: "string \<Rightarrow> (string \<times> string) option" where
  "parse_string [] = None"
| "parse_string (c # cs) =
     (if c = dquote then Some ([], cs)
      else if c = backslash then
        (case cs of
           [] \<Rightarrow> None
         | e # r \<Rightarrow>
             if e = CHR ''u'' then
               (case r of
                  a # b # c' # d # r' \<Rightarrow>
                    (case unicode_escape a b c' d of
                       None \<Rightarrow> None
                     | Some ch \<Rightarrow> map_option (apfst ((#) ch)) (parse_string r'))
                | _ \<Rightarrow> None)
             else
               (case simple_escape e of
                  None \<Rightarrow> None
                | Some ch \<Rightarrow> map_option (apfst ((#) ch)) (parse_string r)))
      else if (of_char c :: nat) < 32 then None
      else map_option (apfst ((#) c)) (parse_string cs))"

text \<open>
  An integer numeral: an optional minus sign, then 0 or a numeral without leading zero.
  The numeral \<^verbatim>\<open>-0\<close> is negative zero.
\<close>

definition parse_number :: "string \<Rightarrow> (json \<times> string) option" where
  "parse_number s =
     (let neg = (s \<noteq> [] \<and> hd s = CHR ''-'');
          s1 = (if neg then tl s else s);
          ds = takeWhile is_digit s1;
          rest = dropWhile is_digit s1
      in if ds = [] \<or> (1 < length ds \<and> hd ds = CHR ''0'') then None
         else Some (if neg then (if nat_of_digits ds = 0 then JNegZero
                                 else JNum (- int (nat_of_digits ds)))
                    else JNum (int (nat_of_digits ds)), rest))"

text \<open>
  Recursive descent with fuel: each call spends one unit, so a text of length \<open>n\<close> never
  needs more than \<open>n\<close>.
\<close>

fun parse_value :: "nat \<Rightarrow> string \<Rightarrow> (json \<times> string) option"
  and parse_elems :: "nat \<Rightarrow> string \<Rightarrow> (json list \<times> string) option"
  and parse_members :: "nat \<Rightarrow> string \<Rightarrow> ((string \<times> json) list \<times> string) option"
where
  "parse_value 0 s = None"
| "parse_value (Suc n) s =
     (case s of
        [] \<Rightarrow> None
      | c # r \<Rightarrow>
          if c = CHR ''['' then
            (case r of
               [] \<Rightarrow> None
             | d # r' \<Rightarrow>
                 if d = CHR '']'' then Some (JArr [], r')
                 else map_option (apfst JArr) (parse_elems n r))
          else if c = CHR ''{'' then
            (case r of
               [] \<Rightarrow> None
             | d # r' \<Rightarrow>
                 if d = CHR ''}'' then Some (JObj [], r')
                 else map_option (apfst JObj) (parse_members n r))
          else if c = dquote then map_option (apfst JStr) (parse_string r)
          else if take 4 s = ''null'' then Some (JNull, drop 4 s)
          else if take 4 s = ''true'' then Some (JBool True, drop 4 s)
          else if take 5 s = ''false'' then Some (JBool False, drop 5 s)
          else parse_number s)"
| "parse_elems 0 s = None"
| "parse_elems (Suc n) s =
     (case parse_value n s of
        None \<Rightarrow> None
      | Some (v, r) \<Rightarrow>
          (case r of
             [] \<Rightarrow> None
           | c # r' \<Rightarrow>
               if c = CHR '','' then map_option (apfst ((#) v)) (parse_elems n r')
               else if c = CHR '']'' then Some ([v], r')
               else None))"
| "parse_members 0 s = None"
| "parse_members (Suc n) s =
     (case s of
        [] \<Rightarrow> None
      | q # s1 \<Rightarrow>
          if q \<noteq> dquote then None
          else
            (case parse_string s1 of
               None \<Rightarrow> None
             | Some (k, r0) \<Rightarrow>
                 (case r0 of
                    [] \<Rightarrow> None
                  | col # r1 \<Rightarrow>
                      if col \<noteq> CHR '':'' then None
                      else
                        (case parse_value n r1 of
                           None \<Rightarrow> None
                         | Some (v, r) \<Rightarrow>
                             (case r of
                                [] \<Rightarrow> None
                              | c # r' \<Rightarrow>
                                  if c = CHR '','' then
                                    map_option (apfst ((#) (k, v))) (parse_members n r')
                                  else if c = CHR ''}'' then Some ([(k, v)], r')
                                  else None)))))"

definition JSON_parse :: "string \<Rightarrow> json option" where
  "JSON_parse s =
     (case parse_value (length s) s of
        Some (j, rest) \<Rightarrow> if rest = [] then Some j else None
      | None \<Rightarrow> None)"

subsection \<open>serialization.ts: toKey and fromKey\<close>

definition toKey :: "jsval \<Rightarrow> string" where
  "toKey v = JSON_stringify (serializeValue v)"

text \<open>\<^verbatim>\<open>fromKey\<close> throws where \<^verbatim>\<open>JSON.parse\<close> does: \<^verbatim>\<open>None\<close>.\<close>

definition fromKey :: "string \<Rightarrow> jsval option" where
  "fromKey key = map_option deserializeValue (JSON_parse key)"

section \<open>expression-parser.ts\<close>

text \<open>The three node kinds of a predicate tree (\<^verbatim>\<open>BasicExpression\<close>).\<close>

datatype expr =
    PropRef "string list"
  | Val jsval
  | Func string "expr list"

fun isPropRef :: "expr \<Rightarrow> bool" where
  "isPropRef (PropRef path) = True"
| "isPropRef _ = False"

fun isValue :: "expr \<Rightarrow> bool" where
  "isValue (Val v) = True"
| "isValue _ = False"

fun propRefMatchesField :: "expr \<Rightarrow> string \<Rightarrow> bool" where
  "propRefMatchesField (PropRef path) fieldName =
     (if length path = 1 \<and> path ! 0 = fieldName then True
      else if length path = 2 \<and> path ! 1 = fieldName then True
      else False)"
| "propRefMatchesField _ fieldName = False"

text \<open>The \<^verbatim>\<open>value\<close> property of a literal node.\<close>

fun valueOf :: "expr \<Rightarrow> jsval" where
  "valueOf (Val v) = v"
| "valueOf _ = VUndefined"

definition extractFromEq :: "expr list \<Rightarrow> string \<Rightarrow> jsval list" where
  "extractFromEq args filterField =
     (if length args \<noteq> 2 then []
      else
        let left = args ! 0; right = args ! 1 in
        if isPropRef left \<and> propRefMatchesField left filterField \<and> isValue right
          then [valueOf right]
        else if isValue left \<and> isPropRef right \<and> propRefMatchesField right filterField
          then [valueOf left]
        else [])"

definition extractFromIn :: "expr list \<Rightarrow> string \<Rightarrow> jsval list" where
  "extractFromIn args filterField =
     (if length args \<noteq> 2 then []
      else
        let left = args ! 0; right = args ! 1 in
        if isPropRef left \<and> propRefMatchesField left filterField \<and> isValue right then
          (case valueOf right of VArr vals \<Rightarrow> vals | _ \<Rightarrow> [])
        else [])"

fun walkExpression :: "expr \<Rightarrow> string \<Rightarrow> jsval list" where
  "walkExpression (Func name args) filterField =
     (if name = ''eq'' then extractFromEq args filterField
      else if name = ''in'' then extractFromIn args filterField
      else if name = ''and'' \<or> name = ''or'' then
        concat (map (\<lambda>arg. walkExpression arg filterField) args)
      else concat (map (\<lambda>arg. walkExpression arg filterField) args))"
| "walkExpression _ filterField = []"

text \<open>
  The loop of \<^verbatim>\<open>extractFilterValues\<close>: \<open>seen\<close> is the set of keys met so far,
  \<open>unique\<close> the values kept.
\<close>

fun unique_loop :: "string set \<Rightarrow> jsval list \<Rightarrow> jsval list \<Rightarrow> jsval list" where
  "unique_loop seen unique [] = unique"
| "unique_loop seen unique (v # vs) =
     (let key = toKey v in
      if key \<notin> seen then unique_loop (insert key seen) (unique @ [v]) vs
      else unique_loop seen unique vs)"

text \<open>\<^verbatim>\<open>LoadSubsetOptions\<close>: only its \<^verbatim>\<open>where\<close> is read (\<^verbatim>\<open>None\<close>: no predicate tree).\<close>

type_synonym LoadSubsetOptions = "expr option"

definition extractFilterValues :: "LoadSubsetOptions \<Rightarrow> string \<Rightarrow> jsval list" where
  "extractFilterValues options filterField =
     (case options of
        None \<Rightarrow> []
      | Some w \<Rightarrow> unique_loop {} [] (walkExpression w filterField))"

record FilterDimension =
  filterField :: string
  convexArg :: string
  single :: bool

text \<open>
  \<^verbatim>\<open>ExtractedFilters\<close>, an object from argument names to value arrays: the list of its
  properties in insertion order (argument names are not array indices, which JavaScript
  lists first). \<open>obj_set\<close> is the assignment \<^verbatim>\<open>o[k] = v\<close>, which keeps the place of a
  property that exists and appends a new one.
\<close>

type_synonym ExtractedFilters = "(string \<times> jsval list) list"

fun obj_set :: "'k \<Rightarrow> 'v \<Rightarrow> ('k \<times> 'v) list \<Rightarrow> ('k \<times> 'v) list" where
  "obj_set k v [] = [(k, v)]"
| "obj_set k v (p # ps) = (if fst p = k then (k, v) # ps else p # obj_set k v ps)"

definition obj_delete :: "'k \<Rightarrow> ('k \<times> 'v) list \<Rightarrow> ('k \<times> 'v) list" where
  "obj_delete k ps = filter (\<lambda>p. fst p \<noteq> k) ps"

fun extractMultiple_loop ::
  "LoadSubsetOptions \<Rightarrow> FilterDimension list \<Rightarrow> ExtractedFilters \<Rightarrow> ExtractedFilters" where
  "extractMultiple_loop options [] result = result"
| "extractMultiple_loop options (dim # dims) result =
     (let vals = extractFilterValues options (filterField dim) in
      extractMultiple_loop options dims
        (if length vals > 0 then obj_set (convexArg dim) vals result else result))"

definition extractMultipleFilterValues ::
  "LoadSubsetOptions \<Rightarrow> FilterDimension list \<Rightarrow> ExtractedFilters" where
  "extractMultipleFilterValues options filterDimensions =
     extractMultiple_loop options filterDimensions []"

section \<open>ConvexSyncManager.ts\<close>

subsection \<open>Numbers: the comparisons and arithmetic the manager uses\<close>

text \<open>The JavaScript comparison \<^verbatim>\<open>a > b\<close> on numbers: false as soon as one side is NaN.\<close>

fun js_gt :: "jsnum \<Rightarrow> jsnum \<Rightarrow> bool" where
  "js_gt NaN b = False"
| "js_gt a NaN = False"
| "js_gt (Fin a) (Fin b) = (a > b)"
| "js_gt (Fin a) NegZero = (a > 0)"
| "js_gt NegZero (Fin b) = (0 > b)"
| "js_gt NegZero NegZero = False"
| "js_gt PosInfinity PosInfinity = False"
| "js_gt PosInfinity b = True"
| "js_gt a PosInfinity = False"
| "js_gt NegInfinity b = False"
| "js_gt (Fin a) NegInfinity = True"
| "js_gt NegZero NegInfinity = True"

text \<open>\<^verbatim>\<open>a >= b\<close> on numbers.\<close>

definition js_ge :: "jsnum \<Rightarrow> jsnum \<Rightarrow> bool" where
  "js_ge a b \<longleftrightarrow>
     a \<noteq> NaN \<and> b \<noteq> NaN \<and> (js_gt a b \<or> positive_zero a = positive_zero b)"

text \<open>\<^verbatim>\<open>Math.max(0, cursor - overlap)\<close> for a finite overlap.\<close>

fun rewind :: "jsnum \<Rightarrow> int \<Rightarrow> jsnum" where
  "rewind NaN overlap = NaN"
| "rewind PosInfinity overlap = PosInfinity"
| "rewind NegInfinity overlap = Fin 0"
| "rewind NegZero overlap = Fin (max 0 (0 - overlap))"
| "rewind (Fin c) overlap = Fin (max 0 (c - overlap))"

subsection \<open>Configuration and state\<close>

text \<open>
  The options of the constructor. The read \<^verbatim>\<open>item[updatedAtFieldName]\<close>, typed
  \<^verbatim>\<open>number | undefined\<close>, is the function \<open>updatedAt\<close>. The debounce delay is not
  modelled: the timer firing is an event of its own.
\<close>

record ('t, 'k) config =
  filterDimensions :: "FilterDimension list"
  updatedAt :: "'t \<Rightarrow> jsnum option"
  tailOverlapMs :: int
  resubscribeThreshold :: int
  getKey :: "'t \<Rightarrow> 'k"

text \<open>The calls made on the host collection's callbacks, in order.\<close>

datatype 't host_call = Begin | WriteInsert 't | WriteUpdate 't | Commit | MarkReady

datatype promise_status = Pending | Resolved | Rejected

datatype js_error =
    SingleViolation string nat nat nat
  | SyntaxError
  | TypeError
  | QueryError

text \<open>A promise handed to a caller: \<^verbatim>\<open>Promise.resolve()\<close>, or the promise with this index.\<close>

datatype promise_ref = AlreadyResolved | PromiseAt nat

datatype 'a outcome = Returned 'a | Threw js_error

text \<open>
  A \<^verbatim>\<open>Set<string>\<close> is the list of its members in insertion order, a \<^verbatim>\<open>Map\<close> the list of
  its entries in insertion order.

  \<open>debounceTimer\<close> is the armed timer, named by the promise its callback settles;
  \<open>promises\<close> holds the status of every promise \<^verbatim>\<open>scheduleProcessing\<close> created;
  \<open>backfill\<close> is the query a processing pass is awaiting, with that pass's promise;
  \<open>currentSubscription\<close> holds the arguments the live subscription was installed with;
  \<open>callbacks\<close> tells whether \<^verbatim>\<open>setCallbacks\<close> was called; \<open>hostCalls\<close> is the trace of
  the calls made on them.
\<close>

record 't state =
  activeDimensions :: "(string \<times> string list) list"
  refCounts :: "(string \<times> int) list"
  pendingFilters :: ExtractedFilters
  globalCursor :: jsnum
  currentSubscription :: "(string \<times> jsval) list option"
  debounceTimer :: "nat option"
  isProcessing :: bool
  markedReady :: bool
  hasRequestedGlobal :: bool
  globalRefCount :: int
  messagesSinceSubscription :: int
  callbacks :: bool
  promises :: "promise_status list"
  backfill :: "(nat \<times> (string \<times> jsval) list) option"
  hostCalls :: "'t host_call list"

text \<open>The constructor: one empty active set per dimension.\<close>

definition init_active :: "FilterDimension list \<Rightarrow> (string \<times> string list) list" where
  "init_active dims = foldl (\<lambda>m dim. obj_set (convexArg dim) [] m) [] dims"

definition constructor :: "('t, 'k) config \<Rightarrow> 't state" where
  "constructor cfg =
     \<lparr> activeDimensions = init_active (filterDimensions cfg),
       refCounts = [],
       pendingFilters = [],
       globalCursor = Fin 0,
       currentSubscription = None,
       debounceTimer = None,
       isProcessing = False,
       markedReady = False,
       hasRequestedGlobal = False,
       globalRefCount = 0,
       messagesSinceSubscription = 0,
       callbacks = False,
       promises = [],
       backfill = None,
       hostCalls = [] \<rparr>"

definition setCallbacks :: "'t state \<Rightarrow> 't state" where
  "setCallbacks s = s\<lparr>callbacks := True\<rparr>"

text \<open>\<^verbatim>\<open>Set.prototype.add\<close>.\<close>

definition set_add :: "string \<Rightarrow> string list \<Rightarrow> string list" where
  "set_add x xs = (if x \<in> set xs then xs else xs @ [x])"

subsection \<open>createCompositeKey\<close>

text \<open>
  The \<^verbatim>\<open>reduce\<close> over the sorted property names; \<^verbatim>\<open>if (values)\<close> holds for every
  array.
\<close>

definition createCompositeKey :: "ExtractedFilters \<Rightarrow> string" where
  "createCompositeKey filters =
     (let sorted =
        foldl (\<lambda>acc key.
                 case map_of filters key of
                   Some vals \<Rightarrow> obj_set key (sort (map toKey vals)) acc
                 | None \<Rightarrow> acc)
              [] (sort (map fst filters))
      in JSON_stringify (JObj (map (map_prod id (\<lambda>keys. JArr (map JStr keys))) sorted)))"

subsection \<open>scheduleProcessing and requestFilters\<close>

text \<open>
  \<^verbatim>\<open>scheduleProcessing\<close> creates a new promise on every call, clears the armed timer and
  arms a new one whose callback settles the new promise.
\<close>

definition scheduleProcessing :: "'t state \<Rightarrow> promise_ref outcome \<times> 't state" where
  "scheduleProcessing s =
     (let p = length (promises s) in
      (Returned (PromiseAt p),
       s\<lparr>promises := promises s @ [Pending], debounceTimer := Some p\<rparr>))"

text \<open>\<^verbatim>\<open>this.pendingFilters[convexArg]?.some((pv) => toKey(pv) === serialized)\<close>\<close>

definition pending_has :: "ExtractedFilters \<Rightarrow> string \<Rightarrow> string \<Rightarrow> bool" where
  "pending_has pending arg serialized =
     (case map_of pending arg of
        Some pvs \<Rightarrow> list_ex (\<lambda>pv. toKey pv = serialized) pvs
      | None \<Rightarrow> False)"

text \<open>The validation of a \<^verbatim>\<open>single\<close> dimension: the error thrown, if any.\<close>

definition single_check ::
  "FilterDimension option \<Rightarrow> string list \<Rightarrow> ExtractedFilters \<Rightarrow> string \<Rightarrow> jsval list
    \<Rightarrow> js_error option" where
  "single_check dim activeSet pending arg vals =
     (case dim of
        None \<Rightarrow> None
      | Some d \<Rightarrow>
          if single d then
            (let existingCount = length activeSet;
                 pendingCount = (case map_of pending arg of Some pvs \<Rightarrow> length pvs | None \<Rightarrow> 0);
                 newValues =
                   filter (\<lambda>v. let serialized = toKey v in
                                \<not> (serialized \<in> set activeSet)
                                \<and> \<not> pending_has pending arg serialized) vals
             in if existingCount + pendingCount + length newValues > 1
                then Some (SingleViolation (filterField d) existingCount pendingCount
                             (length newValues))
                else None)
          else None)"

text \<open>The inner loop over the values of one dimension: the pending buffer and \<^verbatim>\<open>hasNewValues\<close>.\<close>

fun add_values ::
  "string list \<Rightarrow> string \<Rightarrow> jsval list \<Rightarrow> ExtractedFilters \<Rightarrow> bool \<Rightarrow> ExtractedFilters \<times> bool" where
  "add_values activeSet arg [] pending hasNewValues = (pending, hasNewValues)"
| "add_values activeSet arg (v # vs) pending hasNewValues =
     (let serialized = toKey v in
      if \<not> (serialized \<in> set activeSet) then
        (let pending1 = (case map_of pending arg of None \<Rightarrow> obj_set arg [] pending | Some _ \<Rightarrow> pending);
             alreadyPending = pending_has pending1 arg serialized
         in if \<not> alreadyPending then
              add_values activeSet arg vs
                (obj_set arg ((case map_of pending1 arg of Some pvs \<Rightarrow> pvs | None \<Rightarrow> []) @ [v]) pending1)
                True
            else add_values activeSet arg vs pending1 hasNewValues)
      else add_values activeSet arg vs pending hasNewValues)"

text \<open>
  The loop over \<^verbatim>\<open>Object.entries(filters)\<close>. A throw leaves the state as the iterations
  before it made it.
\<close>

fun request_entries ::
  "('t, 'k) config \<Rightarrow> (string \<times> jsval list) list \<Rightarrow> 't state \<Rightarrow> bool \<Rightarrow> bool outcome \<times> 't state" where
  "request_entries cfg [] s hasNewValues = (Returned hasNewValues, s)"
| "request_entries cfg ((arg, vals) # rest) s hasNewValues =
     (case map_of (activeDimensions s) arg of
        None \<Rightarrow> request_entries cfg rest s hasNewValues
      | Some activeSet \<Rightarrow>
          (let dim = find (\<lambda>d. convexArg d = arg) (filterDimensions cfg) in
           case single_check dim activeSet (pendingFilters s) arg vals of
             Some err \<Rightarrow> (Threw err, s)
           | None \<Rightarrow>
               (let (pending', h') = add_values activeSet arg vals (pendingFilters s) hasNewValues
                in request_entries cfg rest (s\<lparr>pendingFilters := pending'\<rparr>) h')))"

definition requestFilters ::
  "('t, 'k) config \<Rightarrow> 't state \<Rightarrow> ExtractedFilters \<Rightarrow> promise_ref outcome \<times> 't state" where
  "requestFilters cfg s filters =
     (if length (filterDimensions cfg) = 0 then
        (let s1 = s\<lparr>globalRefCount := globalRefCount s + 1\<rparr> in
         if \<not> hasRequestedGlobal s1 then scheduleProcessing (s1\<lparr>hasRequestedGlobal := True\<rparr>)
         else (Returned AlreadyResolved, s1))
      else
        (let compositeKey = createCompositeKey filters;
             count = (case map_of (refCounts s) compositeKey of Some c \<Rightarrow> c | None \<Rightarrow> 0);
             s1 = s\<lparr>refCounts := obj_set compositeKey (count + 1) (refCounts s)\<rparr>
         in case request_entries cfg filters s1 False of
              (Threw err, s2) \<Rightarrow> (Threw err, s2)
            | (Returned hasNewValues, s2) \<Rightarrow>
                if hasNewValues then scheduleProcessing s2
                else (Returned AlreadyResolved, s2)))"

subsection \<open>buildQueryArgs and updateSubscription\<close>

text \<open>\<^verbatim>\<open>[...serializedValues].map((s) => fromKey(s))\<close>; \<^verbatim>\<open>None\<close> when a key does not parse.\<close>

fun deserialize_all :: "string list \<Rightarrow> jsval list option" where
  "deserialize_all [] = Some []"
| "deserialize_all (k # ks) =
     (case fromKey k of
        None \<Rightarrow> None
      | Some v \<Rightarrow> map_option ((#) v) (deserialize_all ks))"

fun buildQueryArgs_loop ::
  "FilterDimension list \<Rightarrow> (string \<times> string list) list \<Rightarrow> (string \<times> jsval) list
    \<Rightarrow> (string \<times> jsval) list option" where
  "buildQueryArgs_loop dims [] args = Some args"
| "buildQueryArgs_loop dims ((arg, serializedValues) # rest) args =
     (case deserialize_all serializedValues of
        None \<Rightarrow> None
      | Some vals \<Rightarrow>
          (let dim = find (\<lambda>d. convexArg d = arg) dims;
               isSingle = (case dim of Some d \<Rightarrow> single d | None \<Rightarrow> False)
           in buildQueryArgs_loop dims rest
                (obj_set arg
                   (if isSingle then (case vals of [] \<Rightarrow> VUndefined | v # _ \<Rightarrow> v) else VArr vals)
                   args)))"

definition buildQueryArgs ::
  "('t, 'k) config \<Rightarrow> 't state \<Rightarrow> jsnum \<Rightarrow> (string \<times> jsval) list option" where
  "buildQueryArgs cfg s after =
     buildQueryArgs_loop (filterDimensions cfg) (activeDimensions s) [(''after'', VNum after)]"

text \<open>
  \<^verbatim>\<open>updateSubscription\<close>: the old subscription is torn down and the counter reset before
  anything else; a key that does not parse makes \<^verbatim>\<open>buildQueryArgs\<close> throw after that.
\<close>

definition updateSubscription :: "('t, 'k) config \<Rightarrow> 't state \<Rightarrow> unit outcome \<times> 't state" where
  "updateSubscription cfg s =
     (let s1 = s\<lparr>currentSubscription := None, messagesSinceSubscription := 0\<rparr> in
      if (if length (filterDimensions cfg) = 0 then \<not> hasRequestedGlobal s1
          else \<not> list_ex (\<lambda>p. length (snd p) > 0) (activeDimensions s1))
      then (Returned (), s1)
      else
        (let cursor = rewind (globalCursor s1) (tailOverlapMs cfg) in
         case buildQueryArgs cfg s1 cursor of
           None \<Rightarrow> (Threw SyntaxError, s1)
         | Some args \<Rightarrow> (Returned (), s1\<lparr>currentSubscription := Some args\<rparr>)))"

subsection \<open>releaseFilters and cleanupUnreferencedValues\<close>

text \<open>
  \<^verbatim>\<open>Object.entries\<close> of a parsed key: the properties of an object, the indexed members
  of an array or a string, nothing for a number or a boolean; it throws on null.
\<close>

fun entries_of :: "json \<Rightarrow> (string \<times> json) list option" where
  "entries_of (JObj ps) = Some ps"
| "entries_of (JArr xs) = Some (zip (map show_nat [0..<length xs]) xs)"
| "entries_of (JStr cs) = Some (zip (map show_nat [0..<length cs]) (map (\<lambda>c. JStr [c]) cs))"
| "entries_of JNull = None"
| "entries_of _ = Some []"

text \<open>What \<^verbatim>\<open>for ... of\<close> iterates: arrays and strings; anything else throws.\<close>

fun iterate :: "json \<Rightarrow> json list option" where
  "iterate (JArr xs) = Some xs"
| "iterate (JStr cs) = Some (map (\<lambda>c. JStr [c]) cs)"
| "iterate _ = None"

text \<open>
  \<^verbatim>\<open>refSet.add(serialized)\<close> for each member. A member that is not a string is never
  equal to a key of an active set, so it is left out.
\<close>

fun add_serialized :: "json list \<Rightarrow> string list \<Rightarrow> string list" where
  "add_serialized [] refSet = refSet"
| "add_serialized (JStr k # js) refSet = add_serialized js (set_add k refSet)"
| "add_serialized (j # js) refSet = add_serialized js refSet"

text \<open>
  The entries of one parsed key. A throw inside (a value that cannot be iterated) is
  caught by the \<^verbatim>\<open>try\<close> around the key: the rest of the key is skipped.
\<close>

fun ref_entries ::
  "(string \<times> json) list \<Rightarrow> (string \<times> string list) list \<Rightarrow> (string \<times> string list) list" where
  "ref_entries [] referencedValues = referencedValues"
| "ref_entries ((arg, serializedValues) # rest) referencedValues =
     (case map_of referencedValues arg of
        None \<Rightarrow> ref_entries rest referencedValues
      | Some refSet \<Rightarrow>
          (case iterate serializedValues of
             None \<Rightarrow> referencedValues
           | Some members \<Rightarrow>
               ref_entries rest (obj_set arg (add_serialized members refSet) referencedValues)))"

definition ref_key :: "string \<Rightarrow> (string \<times> string list) list \<Rightarrow> (string \<times> string list) list" where
  "ref_key compositeKey referencedValues =
     (case JSON_parse compositeKey of
        None \<Rightarrow> referencedValues
      | Some filters \<Rightarrow>
          (case entries_of filters of
             None \<Rightarrow> referencedValues
           | Some es \<Rightarrow> ref_entries es referencedValues))"

text \<open>The referenced values per dimension, collected from every key of \<^verbatim>\<open>refCounts\<close>.\<close>

definition collect_referenced ::
  "('t, 'k) config \<Rightarrow> 't state \<Rightarrow> (string \<times> string list) list" where
  "collect_referenced cfg s =
     foldl (\<lambda>m compositeKey. ref_key compositeKey m)
       (init_active (filterDimensions cfg)) (map fst (refCounts s))"

text \<open>
  The loop over \<^verbatim>\<open>activeDimensions\<close>: the entries with the unreferenced members deleted,
  and \<^verbatim>\<open>needsSubscriptionUpdate\<close>. \<^verbatim>\<open>referencedValues.get(convexArg)!\<close> on a name that
  is no dimension is undefined, and the call on it throws.
\<close>

fun remove_unreferenced ::
  "(string \<times> string list) list \<Rightarrow> (string \<times> string list) list
    \<Rightarrow> bool outcome \<times> (string \<times> string list) list" where
  "remove_unreferenced referencedValues [] = (Returned False, [])"
| "remove_unreferenced referencedValues ((arg, activeSet) # rest) =
     (case map_of referencedValues arg of
        None \<Rightarrow>
          (if activeSet = [] then
             (case remove_unreferenced referencedValues rest of
                (r, rest') \<Rightarrow> (r, (arg, activeSet) # rest'))
           else (Threw TypeError, (arg, activeSet) # rest))
      | Some refSet \<Rightarrow>
          (let kept = filter (\<lambda>serialized. serialized \<in> set refSet) activeSet in
           case remove_unreferenced referencedValues rest of
             (Returned needs, rest') \<Rightarrow> (Returned (needs \<or> kept \<noteq> activeSet), (arg, kept) # rest')
           | (Threw err, rest') \<Rightarrow> (Threw err, (arg, kept) # rest')))"

definition cleanupUnreferencedValues ::
  "('t, 'k) config \<Rightarrow> 't state \<Rightarrow> unit outcome \<times> 't state" where
  "cleanupUnreferencedValues cfg s =
     (let referencedValues = collect_referenced cfg s in
      case remove_unreferenced referencedValues (activeDimensions s) of
        (Threw err, active') \<Rightarrow> (Threw err, s\<lparr>activeDimensions := active'\<rparr>)
      | (Returned needsSubscriptionUpdate, active') \<Rightarrow>
          (let s1 = s\<lparr>activeDimensions := active'\<rparr> in
           if needsSubscriptionUpdate then updateSubscription cfg s1
           else (Returned (), s1)))"

definition releaseFilters ::
  "('t, 'k) config \<Rightarrow> 't state \<Rightarrow> ExtractedFilters \<Rightarrow> unit outcome \<times> 't state" where
  "releaseFilters cfg s filters =
     (if length (filterDimensions cfg) = 0 then
        (let s1 = s\<lparr>globalRefCount := max 0 (globalRefCount s - 1)\<rparr> in
         if globalRefCount s1 = 0 \<and> hasRequestedGlobal s1 then
           updateSubscription cfg (s1\<lparr>hasRequestedGlobal := False\<rparr>)
         else (Returned (), s1))
      else
        (let compositeKey = createCompositeKey filters;
             count = (case map_of (refCounts s) compositeKey of Some c \<Rightarrow> c | None \<Rightarrow> 0) - 1;
             s1 = (if count \<le> 0 then s\<lparr>refCounts := obj_delete compositeKey (refCounts s)\<rparr>
                   else s\<lparr>refCounts := obj_set compositeKey count (refCounts s)\<rparr>)
         in cleanupUnreferencedValues cfg s1))"

subsection \<open>handleIncomingData\<close>

text \<open>
  The loop over the items: the global cursor, \<^verbatim>\<open>newItemCount\<close> and the writes made so
  far. \<open>collection\<close> is \<^verbatim>\<open>collection.get\<close> of the host, which the writes of an open batch
  do not change.
\<close>

fun reconcile ::
  "('t, 'k) config \<Rightarrow> ('k \<Rightarrow> 't option) \<Rightarrow> jsnum \<Rightarrow> 't list \<Rightarrow> jsnum \<Rightarrow> int \<Rightarrow> 't host_call list
    \<Rightarrow> jsnum \<times> int \<times> 't host_call list" where
  "reconcile cfg collection previousCursor [] cursor newItemCount writes =
     (cursor, newItemCount, writes)"
| "reconcile cfg collection previousCursor (item # items) cursor newItemCount writes =
     (let key = getKey cfg item;
          incomingTs = updatedAt cfg item;
          cursor' = (case incomingTs of
                       Some t \<Rightarrow> if js_gt t cursor then t else cursor
                     | None \<Rightarrow> cursor);
          existing = collection key
      in case existing of
           None \<Rightarrow>
             reconcile cfg collection previousCursor items cursor'
               (case incomingTs of
                  Some t \<Rightarrow> if js_gt t previousCursor then newItemCount + 1 else newItemCount
                | None \<Rightarrow> newItemCount)
               (writes @ [WriteInsert item])
         | Some ex \<Rightarrow>
             (case (incomingTs, updatedAt cfg ex) of
                (Some t, Some existingTs) \<Rightarrow>
                  if js_gt t existingTs then
                    reconcile cfg collection previousCursor items cursor'
                      (if js_gt t previousCursor then newItemCount + 1 else newItemCount)
                      (writes @ [WriteUpdate item])
                  else reconcile cfg collection previousCursor items cursor' newItemCount writes
              | (Some t, None) \<Rightarrow>
                  reconcile cfg collection previousCursor items cursor' newItemCount
                    (writes @ [WriteUpdate item])
              | (None, _) \<Rightarrow>
                  reconcile cfg collection previousCursor items cursor' newItemCount writes))"

definition handleIncomingData ::
  "('t, 'k) config \<Rightarrow> ('k \<Rightarrow> 't option) \<Rightarrow> 't state \<Rightarrow> 't list \<Rightarrow> unit outcome \<times> 't state" where
  "handleIncomingData cfg collection s items =
     (if \<not> callbacks s \<or> length items = 0 then (Returned (), s)
      else
        (let previousCursor = globalCursor s in
         case reconcile cfg collection previousCursor items (globalCursor s) 0 [] of
           (cursor, newItemCount, writes) \<Rightarrow>
             (let s1 = s\<lparr>globalCursor := cursor,
                         hostCalls := hostCalls s @ [Begin] @ writes @ [Commit],
                         messagesSinceSubscription := messagesSinceSubscription s + newItemCount\<rparr>
              in if resubscribeThreshold cfg > 0
                    \<and> messagesSinceSubscription s1 \<ge> resubscribeThreshold cfg
                    \<and> currentSubscription s1 \<noteq> None
                 then updateSubscription cfg s1
                 else (Returned (), s1))))"

subsection \<open>processFilterBatch\<close>

text \<open>\<^verbatim>\<open>activeSet.add(toKey(value))\<close> for every value of one entry.\<close>

fun add_keys :: "jsval list \<Rightarrow> string list \<Rightarrow> string list" where
  "add_keys [] activeSet = activeSet"
| "add_keys (v # vs) activeSet = add_keys vs (set_add (toKey v) activeSet)"

text \<open>
  The loop over \<^verbatim>\<open>Object.entries(newFilters)\<close>: the pending values of every entry are
  added to the active set of their dimension, when there is one.
\<close>

fun merge_pending ::
  "ExtractedFilters \<Rightarrow> (string \<times> string list) list \<Rightarrow> (string \<times> string list) list" where
  "merge_pending [] active = active"
| "merge_pending ((arg, vals) # rest) active =
     (case map_of active arg of
        None \<Rightarrow> merge_pending rest active
      | Some activeSet \<Rightarrow> merge_pending rest (obj_set arg (add_keys vals activeSet) active))"

definition settle :: "nat \<Rightarrow> promise_status \<Rightarrow> 't state \<Rightarrow> 't state" where
  "settle p status s = s\<lparr>promises := (promises s)[p := status]\<rparr>"

definition settle_with :: "nat \<Rightarrow> unit outcome \<Rightarrow> 't state \<Rightarrow> 't state" where
  "settle_with p r s = settle p (case r of Returned _ \<Rightarrow> Resolved | Threw _ \<Rightarrow> Rejected) s"

text \<open>
  The end of a pass whose backfill returned: the subscription is rebuilt, the host is
  told once that the collection is ready, and \<^verbatim>\<open>finally\<close> clears the flag.
\<close>

definition finish_pass :: "('t, 'k) config \<Rightarrow> 't state \<Rightarrow> unit outcome \<times> 't state" where
  "finish_pass cfg s =
     (case updateSubscription cfg s of
        (Threw err, s1) \<Rightarrow> (Threw err, s1\<lparr>isProcessing := False\<rparr>)
      | (Returned _, s1) \<Rightarrow>
          (let s2 = (if \<not> markedReady s1 \<and> callbacks s1
                     then s1\<lparr>hostCalls := hostCalls s1 @ [MarkReady], markedReady := True\<rparr>
                     else s1)
           in (Returned (), s2\<lparr>isProcessing := False\<rparr>)))"

text \<open>
  The timer callback, up to the first \<^verbatim>\<open>await\<close> on a query: \<^verbatim>\<open>processFilterBatch\<close>
  returns at once (and the promise of this timer resolves), or it merges the pending
  values into the active sets and issues the backfill query.
\<close>

definition timer_fires :: "('t, 'k) config \<Rightarrow> 't state \<Rightarrow> 't state" where
  "timer_fires cfg s =
     (case debounceTimer s of
        None \<Rightarrow> s
      | Some p \<Rightarrow>
          (let s0 = s\<lparr>debounceTimer := None\<rparr>;
               hasPendingFilters = (length (pendingFilters s0) > 0);
               needsGlobalSync = (length (filterDimensions cfg) = 0 \<and> hasRequestedGlobal s0)
           in if isProcessing s0 then settle p Resolved s0
              else if \<not> hasPendingFilters \<and> \<not> needsGlobalSync then settle p Resolved s0
              else
                (let s1 = s0\<lparr>isProcessing := True\<rparr> in
                 if length (filterDimensions cfg) = 0 then
                   s1\<lparr>backfill := Some (p, [(''after'', VNum (Fin 0))])\<rparr>
                 else
                   (let newFilters = pendingFilters s1;
                        s2 = s1\<lparr>pendingFilters := [],
                                 activeDimensions := merge_pending newFilters (activeDimensions s1)\<rparr>
                    in if length newFilters = 0 then
                         (case finish_pass cfg s2 of (r, s3) \<Rightarrow> settle_with p r s3)
                       else
                         s2\<lparr>backfill :=
                              Some (p, obj_set ''after'' (VNum (Fin 0))
                                         (map (map_prod id VArr) newFilters))\<rparr>))))"

text \<open>What the backfill query gives: a failure, an array of items, or something else.\<close>

datatype 't query_result = QueryFailed | QueryItems "'t list" | QueryOther

definition query_returns ::
  "('t, 'k) config \<Rightarrow> ('k \<Rightarrow> 't option) \<Rightarrow> 't query_result \<Rightarrow> 't state \<Rightarrow> 't state" where
  "query_returns cfg collection res s =
     (case backfill s of
        None \<Rightarrow> s
      | Some (p, args) \<Rightarrow>
          (let s0 = s\<lparr>backfill := None\<rparr> in
           case res of
             QueryFailed \<Rightarrow> settle p Rejected (s0\<lparr>isProcessing := False\<rparr>)
           | QueryItems items \<Rightarrow>
               (case handleIncomingData cfg collection s0 items of
                  (Threw err, s1) \<Rightarrow> settle p Rejected (s1\<lparr>isProcessing := False\<rparr>)
                | (Returned _, s1) \<Rightarrow>
                    (case finish_pass cfg s1 of (r, s2) \<Rightarrow> settle_with p r s2))
           | QueryOther \<Rightarrow>
               (case finish_pass cfg s0 of (r, s2) \<Rightarrow> settle_with p r s2)))"

text \<open>A delivery of the live subscription: the callback runs while the subscription exists.\<close>

definition subscription_delivers ::
  "('t, 'k) config \<Rightarrow> ('k \<Rightarrow> 't option) \<Rightarrow> 't list \<Rightarrow> 't state \<Rightarrow> 't state" where
  "subscription_delivers cfg collection items s =
     (if currentSubscription s = None then s
      else snd (handleIncomingData cfg collection s items))"

definition cleanup :: "'t state \<Rightarrow> 't state" where
  "cleanup s =
     s\<lparr>debounceTimer := None,
       currentSubscription := None,
       activeDimensions := map (\<lambda>p. (fst p, [])) (activeDimensions s),
       refCounts := [],
       pendingFilters := [],
       globalCursor := Fin 0,
       markedReady := False,
       hasRequestedGlobal := False,
       globalRefCount := 0,
       messagesSinceSubscription := 0,
       callbacks := False\<rparr>"

section \<open>index.ts: loadSubset and unloadSubset\<close>

definition loadSubset ::
  "('t, 'k) config \<Rightarrow> 't state \<Rightarrow> LoadSubsetOptions \<Rightarrow> promise_ref outcome \<times> 't state" where
  "loadSubset cfg s options =
     (if length (filterDimensions cfg) = 0 then requestFilters cfg s []
      else
        (let extracted = extractMultipleFilterValues options (filterDimensions cfg) in
         if length extracted = 0 then (Returned AlreadyResolved, s)
         else requestFilters cfg s extracted))"

definition unloadSubset ::
  "('t, 'k) config \<Rightarrow> 't state \<Rightarrow> LoadSubsetOptions \<Rightarrow> unit outcome \<times> 't state" where
  "unloadSubset cfg s options =
     (if length (filterDimensions cfg) = 0 then releaseFilters cfg s []
      else
        (let extracted = extractMultipleFilterValues options (filterDimensions cfg) in
         if length extracted > 0 then releaseFilters cfg s extracted
         else (Returned (), s)))"

section \<open>The manager as a transition system\<close>

text \<open>
  Everything that can happen to one manager: the calls of its interface and the events
  of the timer, of the backfill query and of the live subscription.
\<close>

datatype ('t, 'k) event =
    RequestFilters ExtractedFilters
  | ReleaseFilters ExtractedFilters
  | TimerFires
  | QueryReturns "'k \<Rightarrow> 't option" "'t query_result"
  | SubscriptionDelivers "'k \<Rightarrow> 't option" "'t list"
  | SetCallbacks
  | Cleanup

fun step :: "('t, 'k) config \<Rightarrow> 't state \<Rightarrow> ('t, 'k) event \<Rightarrow> 't state" where
  "step cfg s (RequestFilters filters) = snd (requestFilters cfg s filters)"
| "step cfg s (ReleaseFilters filters) = snd (releaseFilters cfg s filters)"
| "step cfg s TimerFires = timer_fires cfg s"
| "step cfg s (QueryReturns collection res) = query_returns cfg collection res s"
| "step cfg s (SubscriptionDelivers collection items) = subscription_delivers cfg collection items s"
| "step cfg s SetCallbacks = setCallbacks s"
| "step cfg s Cleanup = cleanup s"

definition run :: "('t, 'k) config \<Rightarrow> 't state \<Rightarrow> ('t, 'k) event list \<Rightarrow> 't state" where
  "run cfg s events = foldl (step cfg) s events"

section \<open>Auxiliary notions for the proofs\<close>

text \<open>A text after which a numeral ends: it does not go on with a digit.\<close>

definition ok_rest :: "string \<Rightarrow> bool" where
  "ok_rest rest \<longleftrightarrow> rest = [] \<or> \<not> is_digit (hd rest)"

text \<open>The text of one property of an object, as \<open>JSON_stringify\<close> prints it.\<close>

definition member_text :: "string \<times> json \<Rightarrow> string" where
  "member_text p = quote (fst p) @ CHR '':'' # JSON_stringify (snd p)"

text \<open>
  The members of a composite key before printing: one entry for each argument name of the
  combination, in sorted order, with the sorted stable keys of its values.
\<close>

definition sorted_entries :: "ExtractedFilters \<Rightarrow> (string \<times> string list) list" where
  "sorted_entries filters =
     foldl (\<lambda>acc key.
              case map_of filters key of
                Some vals \<Rightarrow> obj_set key (sort (map toKey vals)) acc
              | None \<Rightarrow> acc)
       [] (sort (map fst filters))"

text \<open>
  A JSON-safe value as \<^verbatim>\<open>JSON.parse\<close> reads it back from the text that \<^verbatim>\<open>JSON.stringify\<close>
  prints for it: negative zero is printed as \<^verbatim>\<open>0\<close> and read as positive zero.
\<close>

fun read_back :: "json \<Rightarrow> json" where
  "read_back JNegZero = JNum 0"
| "read_back (JArr xs) = JArr (map read_back xs)"
| "read_back (JObj ps) = JObj (map (map_prod id read_back) ps)"
| "read_back j = j"

text \<open>A value with every negative zero made positive.\<close>

fun positive_zeros :: "jsval \<Rightarrow> jsval" where
  "positive_zeros (VNum n) = VNum (positive_zero n)"
| "positive_zeros (VArr xs) = VArr (map positive_zeros xs)"
| "positive_zeros (VObj ps) = VObj (map (map_prod id positive_zeros) ps)"
| "positive_zeros v = v"

section \<open>The specification's notions, for comparison with the code\<close>

subsection \<open>Predicate extraction\<close>

text \<open>
  Deduplicated by stable key, in first-seen order: a value is kept, and every later value
  with the same key is dropped.
\<close>

function first_seen :: "jsval list \<Rightarrow> jsval list" where
  "first_seen [] = []"
| "first_seen (v # vs) = v # first_seen (filter (\<lambda>w. toKey w \<noteq> toKey v) vs)"
  by pat_completeness auto
termination
  by (relation "measure length") (auto simp: less_Suc_eq_le)

text \<open>
  A field reference names its field by a path: the field alone, or an alias of the
  queried collection followed by the field.
\<close>

fun references_field :: "expr \<Rightarrow> string \<Rightarrow> bool" where
  "references_field (PropRef [name]) field = (name = field)"
| "references_field (PropRef [alias, name]) field = (name = field)"
| "references_field e field = False"

text \<open>
  Equality is binary: it gives the literal when one side references the field and the
  other side is a literal, in either operand order.
\<close>

fun equality_values :: "string \<Rightarrow> expr list \<Rightarrow> jsval list" where
  "equality_values field [l, Val v] = (if references_field l field then [v] else [])"
| "equality_values field [Val v, r] = (if references_field r field then [v] else [])"
| "equality_values field operands = []"

text \<open>
  Set membership is binary: it gives the members of the literal array on its right side
  when its left side references the field.
\<close>

fun membership_values :: "string \<Rightarrow> expr list \<Rightarrow> jsval list" where
  "membership_values field [l, Val (VArr members)] =
     (if references_field l field then members else [])"
| "membership_values field operands = []"

text \<open>
  The comparisons of a tree, from left to right: its equality and set-membership nodes
  that are reached from the root through conjunctions, disjunctions and other function
  nodes. Nothing below a comparison is looked at.
\<close>

fun comparisons :: "expr \<Rightarrow> (string \<times> expr list) list" where
  "comparisons (Func name operands) =
     (if name = ''eq'' \<or> name = ''in'' then [(name, operands)]
      else concat (map comparisons operands))"
| "comparisons (PropRef path) = []"
| "comparisons (Val v) = []"

text \<open>The literal values that a tree constrains a field to, in the order of the tree.\<close>

definition constrained_values :: "expr \<Rightarrow> string \<Rightarrow> jsval list" where
  "constrained_values w field =
     concat (map (\<lambda>c. if fst c = ''eq'' then equality_values field (snd c)
                       else membership_values field (snd c))
               (comparisons w))"

subsection \<open>Reconciliation\<close>

text \<open>
  The rule of the specification for one incoming record: a record whose key is absent is
  inserted; a record whose key is present is an update when both timestamps exist and the
  incoming one is strictly greater, or when only the incoming one exists; in every other
  case nothing is written.
\<close>

definition lww_write :: "('t, 'k) config \<Rightarrow> ('k \<Rightarrow> 't option) \<Rightarrow> 't \<Rightarrow> 't host_call option" where
  "lww_write cfg collection item =
     (case collection (getKey cfg item) of
        None \<Rightarrow> Some (WriteInsert item)
      | Some ex \<Rightarrow>
          (case (updatedAt cfg ex, updatedAt cfg item) of
             (Some existingTs, Some incomingTs) \<Rightarrow>
               if js_gt incomingTs existingTs then Some (WriteUpdate item) else None
           | (None, Some incomingTs) \<Rightarrow> Some (WriteUpdate item)
           | (_, None) \<Rightarrow> None))"

subsection \<open>The value codec\<close>

text \<open>
  Deep structural equality of two values: equal primitives, where numbers are equal as
  numbers (the two zeros are the same number) and not-a-number equals itself; dates at
  the same time; arrays equal member by member; and mappings with the same property names
  whose values are deep-equal name by name, in whatever order the properties are listed.
  A mapping has each property name once.
\<close>

function deep_equal :: "jsval \<Rightarrow> jsval \<Rightarrow> bool" where
  "deep_equal (VArr xs) (VArr ys) = list_all2 deep_equal xs ys"
| "deep_equal (VObj ps) (VObj qs) =
     (distinct (map fst ps) \<and> distinct (map fst qs) \<and> set (map fst ps) = set (map fst qs)
      \<and> (\<forall>(k, v) \<in> set ps. \<forall>(k', w) \<in> set qs. k = k' \<longrightarrow> deep_equal v w))"
| "deep_equal VUndefined b = (b = VUndefined)"
| "deep_equal VNull b = (b = VNull)"
| "deep_equal (VBool x) b = (b = VBool x)"
| "deep_equal (VNum x) b =
     (case b of VNum y \<Rightarrow> positive_zero x = positive_zero y | _ \<Rightarrow> False)"
| "deep_equal (VStr x) b = (b = VStr x)"
| "deep_equal (VDate x) b = (b = VDate x)"
| "deep_equal (VArr xs) VUndefined = False"
| "deep_equal (VArr xs) VNull = False"
| "deep_equal (VArr xs) (VBool y) = False"
| "deep_equal (VArr xs) (VNum y) = False"
| "deep_equal (VArr xs) (VStr y) = False"
| "deep_equal (VArr xs) (VDate y) = False"
| "deep_equal (VArr xs) (VObj qs) = False"
| "deep_equal (VObj ps) VUndefined = False"
| "deep_equal (VObj ps) VNull = False"
| "deep_equal (VObj ps) (VBool y) = False"
| "deep_equal (VObj ps) (VNum y) = False"
| "deep_equal (VObj ps) (VStr y) = False"
| "deep_equal (VObj ps) (VDate y) = False"
| "deep_equal (VObj ps) (VArr ys) = False"
  by pat_completeness auto
termination
proof (relation "measure (\<lambda>p. size (fst p))")
  show "wf (measure (\<lambda>p. size (fst p)))" by simp
next
  fix xs ys :: "jsval list" and x y
  assume "x \<in> set xs"
  then show "((x, y), (VArr xs, VArr ys)) \<in> measure (\<lambda>p. size (fst p))"
    by (induction xs) auto
next
  fix ps qs :: "(string \<times> jsval) list" and p k v q k' w
  assume "p \<in> set ps" "(k, v) = p"
  then have "(k, v) \<in> set ps" by simp
  then have "size v < Suc (size_list (size_prod (\<lambda>x. 0) size) ps)"
    by (induction ps) auto
  then show "((v, w), (VObj ps, VObj qs)) \<in> measure (\<lambda>p. size (fst p))"
    by simp
qed

text \<open>
  Two values list the properties of their mappings in the same order, at every depth at
  which they have the same shape.
\<close>

function same_property_order :: "jsval \<Rightarrow> jsval \<Rightarrow> bool" where
  "same_property_order (VArr xs) (VArr ys) = list_all2 same_property_order xs ys"
| "same_property_order (VObj ps) (VObj qs) =
     (map fst ps = map fst qs \<and> list_all2 same_property_order (map snd ps) (map snd qs))"
| "same_property_order VUndefined b = True"
| "same_property_order VNull b = True"
| "same_property_order (VBool x) b = True"
| "same_property_order (VNum x) b = True"
| "same_property_order (VStr x) b = True"
| "same_property_order (VDate x) b = True"
| "same_property_order (VArr xs) VUndefined = True"
| "same_property_order (VArr xs) VNull = True"
| "same_property_order (VArr xs) (VBool y) = True"
| "same_property_order (VArr xs) (VNum y) = True"
| "same_property_order (VArr xs) (VStr y) = True"
| "same_property_order (VArr xs) (VDate y) = True"
| "same_property_order (VArr xs) (VObj qs) = True"
| "same_property_order (VObj ps) VUndefined = True"
| "same_property_order (VObj ps) VNull = True"
| "same_property_order (VObj ps) (VBool y) = True"
| "same_property_order (VObj ps) (VNum y) = True"
| "same_property_order (VObj ps) (VStr y) = True"
| "same_property_order (VObj ps) (VDate y) = True"
| "same_property_order (VObj ps) (VArr ys) = True"
  by pat_completeness auto
termination
proof (relation "measure (\<lambda>p. size (fst p))")
  show "wf (measure (\<lambda>p. size (fst p)))" by simp
next
  fix xs ys :: "jsval list" and x y
  assume "x \<in> set xs"
  then show "((x, y), (VArr xs, VArr ys)) \<in> measure (\<lambda>p. size (fst p))"
    by (induction xs) auto
next
  fix ps qs :: "(string \<times> jsval) list" and v w
  assume "v \<in> set (map snd ps)"
  then obtain k where "(k, v) \<in> set ps" by auto
  then have "size v < Suc (size_list (size_prod (\<lambda>x. 0) size) ps)"
    by (induction ps) auto
  then show "((v, w), (VObj ps, VObj qs)) \<in> measure (\<lambda>p. size (fst p))"
    by simp
qed

text \<open>
  The values that the marker objects of the codec cannot be confused with: no invalid
  date, and no mapping with a property \<^verbatim>\<open>__type\<close> whose value is a string.
\<close>

primrec restorable :: "jsval \<Rightarrow> bool" where
  "restorable VUndefined = True"
| "restorable VNull = True"
| "restorable (VBool b) = True"
| "restorable (VNum n) = True"
| "restorable (VStr s) = True"
| "restorable (VDate d) = (d \<noteq> InvalidDate)"
| "restorable (VArr xs) = list_all id (map restorable xs)"
| "restorable (VObj ps) =
     ((case map_of ps ''__type'' of Some (VStr t) \<Rightarrow> False | _ \<Rightarrow> True)
      \<and> list_all snd (map (map_prod id restorable) ps))"

subsection \<open>Active sets, pending values and referenced values\<close>

text \<open>The members of the active set of a dimension (none when there is no such set).\<close>

definition active_of :: "'t state \<Rightarrow> string \<Rightarrow> string set" where
  "active_of s arg = (case map_of (activeDimensions s) arg of Some xs \<Rightarrow> set xs | None \<Rightarrow> {})"




text \<open>Every entry of \<open>refCounts\<close> has a positive count.\<close>

definition positive_counts :: "'t state \<Rightarrow> bool" where
  "positive_counts s = list_all (\<lambda>p. 0 < snd p) (refCounts s)"

subsection \<open>Promises\<close>

text \<open>
  A pending promise that nothing can settle any more: it belongs neither to the armed
  timer nor to the processing pass in flight.
\<close>

definition orphaned :: "nat \<Rightarrow> 't state \<Rightarrow> bool" where
  "orphaned p s \<longleftrightarrow>
     p < length (promises s) \<and> promises s ! p = Pending
     \<and> debounceTimer s \<noteq> Some p
     \<and> (case backfill s of None \<Rightarrow> True | Some (q, args) \<Rightarrow> q \<noteq> p)"

text \<open>
  The stable keys a filter combination holds for an argument name, and reachability: a
  key is reachable when a combination with a positive reference count holds it.
\<close>

definition combination_keys :: "ExtractedFilters \<Rightarrow> string \<Rightarrow> string set" where
  "combination_keys filters arg =
     (case map_of filters arg of Some vals \<Rightarrow> toKey ` set vals | None \<Rightarrow> {})"

definition reachable :: "'t state \<Rightarrow> string \<Rightarrow> string \<Rightarrow> bool" where
  "reachable s arg key \<longleftrightarrow>
     (\<exists>filters c. (createCompositeKey filters, c) \<in> set (refCounts s) \<and> 0 < c
        \<and> key \<in> combination_keys filters arg)"

text \<open>Every key of the reference counts is the composite key of a combination.\<close>

definition well_formed_keys :: "string list \<Rightarrow> bool" where
  "well_formed_keys cks \<longleftrightarrow> (\<forall>ck \<in> set cks. \<exists>filters. ck = createCompositeKey filters)"

section \<open>A concrete manager\<close>

text \<open>
  One dimension, \<^verbatim>\<open>{filterField: 'channelId', convexArg: 'channelIds'}\<close>; an item is a pair
  of its key and its timestamp.
\<close>

definition example_config :: "(string \<times> jsnum option, string) config" where
  "example_config =
     \<lparr> filterDimensions =
         [\<lparr>filterField = ''channelId'', convexArg = ''channelIds'', single = False\<rparr>],
       updatedAt = snd,
       tailOverlapMs = 10000,
       resubscribeThreshold = 10,
       getKey = fst \<rparr>"

text \<open>A host collection holding \<open>m1\<close> with timestamp 5 and \<open>m0\<close> without a timestamp.\<close>

definition example_collection :: "string \<Rightarrow> (string \<times> jsnum option) option" where
  "example_collection k =
     (if k = ''m1'' then Some (''m1'', Some (Fin 5))
      else if k = ''m0'' then Some (''m0'', None)
      else None)"

definition empty_collection :: "string \<Rightarrow> (string \<times> jsnum option) option" where
  "empty_collection k = None"

text \<open>
  A value with a string, a missing value, not-a-number, both infinities, a date, null, a
  boolean, a negative number, negative zero, a string with a quote, a backslash and a line
  feed, and nested arrays and mappings, one with array indices among its property names.
\<close>

definition sample_value :: jsval where
  "sample_value =
     VObj [(''id'', VStr ''c1''),
           (''list'', VArr [VUndefined, VNum NaN, VNum PosInfinity, VNum NegInfinity,
                            VDate (ValidDate ''2024-02-29T03:04:05.678Z''), VNull, VBool True,
                            VNum (Fin (- 42)), VNum NegZero,
                            VStr [CHR ''a'', CHR 0x22, CHR 0x5C, CHR 0x0A, CHR ''b'']]),
           (''nested'', VObj [(''2'', VNum NegZero), (''10'', VNum (Fin 0)),
                              (''deep'', VArr [VArr [], VObj []])])]"

text \<open>The same value with positive zero in the place of every negative zero.\<close>

definition sample_restored :: jsval where
  "sample_restored =
     VObj [(''id'', VStr ''c1''),
           (''list'', VArr [VUndefined, VNum NaN, VNum PosInfinity, VNum NegInfinity,
                            VDate (ValidDate ''2024-02-29T03:04:05.678Z''), VNull, VBool True,
                            VNum (Fin (- 42)), VNum (Fin 0),
                            VStr [CHR ''a'', CHR 0x22, CHR 0x5C, CHR 0x0A, CHR ''b'']]),
           (''nested'', VObj [(''2'', VNum (Fin 0)), (''10'', VNum (Fin 0)),
                              (''deep'', VArr [VArr [], VObj []])])]"

text \<open>
  A predicate tree over the fields \<open>pageId\<close> and \<open>status\<close>:
  \<^verbatim>\<open>and(eq(m.pageId, 'p1'), or(in(pageId, ['p2', 'p1', 3]), eq('p3', x.pageId)),
      not(eq(pageId, null)), eq(m.status, 'open'), eq(a.b.pageId, 'deep'),
      in(pageId, 'p9'), in(['p8'], pageId), eq(eq(pageId, 'inner'), true),
      eq(pageId, other), eq(pageId, 'p1', 'p7'), m.pageId, 'p6')\<close>.
\<close>

definition example_predicate :: expr where
  "example_predicate =
     Func ''and''
       [Func ''eq'' [PropRef [''m'', ''pageId''], Val (VStr ''p1'')],
        Func ''or''
          [Func ''in'' [PropRef [''pageId''], Val (VArr [VStr ''p2'', VStr ''p1'', VNum (Fin 3)])],
           Func ''eq'' [Val (VStr ''p3''), PropRef [''x'', ''pageId'']]],
        Func ''not'' [Func ''eq'' [PropRef [''pageId''], Val VNull]],
        Func ''eq'' [PropRef [''m'', ''status''], Val (VStr ''open'')],
        Func ''eq'' [PropRef [''a'', ''b'', ''pageId''], Val (VStr ''deep'')],
        Func ''in'' [PropRef [''pageId''], Val (VStr ''p9'')],
        Func ''in'' [Val (VArr [VStr ''p8'']), PropRef [''pageId'']],
        Func ''eq'' [Func ''eq'' [PropRef [''pageId''], Val (VStr ''inner'')], Val (VBool True)],
        Func ''eq'' [PropRef [''pageId''], PropRef [''other'']],
        Func ''eq'' [PropRef [''pageId''], Val (VStr ''p1''), Val (VStr ''p7'')],
        PropRef [''m'', ''pageId''],
        Val (VStr ''p6'')]"

text \<open>
  Two dimensions, the second one \<^verbatim>\<open>single\<close>:
  \<^verbatim>\<open>[{filterField: 'authorId', convexArg: 'authorIds'},
    {filterField: 'pageId', convexArg: 'pageId', single: true}]\<close>.
\<close>

definition single_config :: "(string \<times> jsnum option, string) config" where
  "single_config =
     \<lparr> filterDimensions =
         [\<lparr>filterField = ''authorId'', convexArg = ''authorIds'', single = False\<rparr>,
          \<lparr>filterField = ''pageId'', convexArg = ''pageId'', single = True\<rparr>],
       updatedAt = snd,
       tailOverlapMs = 10000,
       resubscribeThreshold = 10,
       getKey = fst \<rparr>"

text \<open>
  Two requests within one debounce window, then the timer fires and the backfill query
  returns an empty array.
\<close>

definition coalesced :: "(string \<times> jsnum option, string) event list" where
  "coalesced =
     [SetCallbacks,
      RequestFilters [(''channelIds'', [VStr ''c1''])],
      RequestFilters [(''channelIds'', [VStr ''c2''])],
      TimerFires,
      QueryReturns empty_collection (QueryItems [])]"

text \<open>
  One combination requested and released at once, before the timer fires; then the timer
  fires and the backfill query returns an empty array.
\<close>

definition leaked_state :: "(string \<times> jsnum option) state" where
  "leaked_state =
     run example_config (constructor example_config)
       [SetCallbacks,
        RequestFilters [(''channelIds'', [VStr ''c1''])],
        ReleaseFilters [(''channelIds'', [VStr ''c1''])],
        TimerFires,
        QueryReturns empty_collection (QueryItems [])]"

text \<open>
  Two combinations sharing \<open>c1\<close>, both requested and backfilled: \<open>c1\<close> and \<open>c2\<close> are
  active, each combination is referenced once.
\<close>

definition shared_state :: "(string \<times> jsnum option) state" where
  "shared_state =
     run example_config (constructor example_config)
       [SetCallbacks,
        RequestFilters [(''channelIds'', [VStr ''c1''])],
        RequestFilters [(''channelIds'', [VStr ''c1'', VStr ''c2''])],
        TimerFires,
        QueryReturns empty_collection (QueryItems [])]"

section \<open>JSON.parse reads back what JSON.stringify prints\<close>

subsection \<open>String literals\<close>

lemma hex_val_hex_digit: "n < 16 \<Longrightarrow> hex_val (hex_digit n) = Some n"
  by (auto simp: hex_val_def hex_digit_def Let_def)

lemma hex_val_zero: "hex_val (CHR ''0'') = Some 0"
  by (simp add: hex_val_def)

lemma unicode_escape_low:
  "(of_char c :: nat) < 32 \<Longrightarrow>
   unicode_escape (CHR ''0'') (CHR ''0'') (hex_digit (of_char c div 16)) (hex_digit (of_char c mod 16))
     = Some c"
proof -
  assume lt: "(of_char c :: nat) < 32"
  have a: "(of_char c :: nat) div 16 < 16" using lt by simp
  have b: "(of_char c :: nat) mod 16 < 16" by simp
  have "char_of (16 * ((of_char c :: nat) div 16) + of_char c mod 16) = c"
    by simp
  then show ?thesis
    by (simp add: unicode_escape_def hex_val_zero hex_val_hex_digit [OF a] hex_val_hex_digit [OF b])
qed

lemma parse_string_escape:
  "parse_string (concat (map escape_char s) @ dquote # rest) = Some (s, rest)"
proof (induction s)
  case Nil
  then show ?case by simp
next
  case (Cons c s)
  show ?case
  proof (cases "c = dquote \<or> c = backslash \<or> c = CHR 0x08 \<or> c = CHR 0x0C \<or> c = CHR 0x0A
      \<or> c = CHR 0x0D \<or> c = CHR 0x09")
    case True
    then show ?thesis using Cons.IH
      by (auto simp: escape_char_def simple_escape_def)
  next
    case False
    note nf = False
    show ?thesis
    proof (cases "(of_char c :: nat) < 32")
      case True
      then show ?thesis using nf Cons.IH unicode_escape_low [OF True]
        by (simp add: escape_char_def)
    next
      case False
      then show ?thesis using nf Cons.IH
        by (simp add: escape_char_def)
    qed
  qed
qed

subsection \<open>Numerals\<close>

lemma is_digit_char_of: "d < 10 \<Longrightarrow> is_digit (char_of (48 + d :: nat))"
  by (simp add: is_digit_def)

lemma show_nat_small: "n < 10 \<Longrightarrow> show_nat n = [char_of (48 + n)]"
  by (subst show_nat.simps) simp

lemma show_nat_big: "\<not> n < 10 \<Longrightarrow> show_nat n = show_nat (n div 10) @ [char_of (48 + n mod 10)]"
  by (subst show_nat.simps) simp

lemma show_nat_not_Nil: "show_nat n \<noteq> []"
  by (cases "n < 10") (simp_all add: show_nat_small show_nat_big)

lemma show_nat_digits: "c \<in> set (show_nat n) \<Longrightarrow> is_digit c"
proof (induction n arbitrary: c rule: show_nat.induct)
  case (1 n)
  show ?case
  proof (cases "n < 10")
    case True
    with "1.prems" show ?thesis
      by (simp add: show_nat_small is_digit_char_of)
  next
    case False
    have "n mod 10 < 10" by simp
    then have "is_digit (char_of (48 + n mod 10))" by (rule is_digit_char_of)
    with False "1.prems" "1.IH" show ?thesis
      by (auto simp: show_nat_big)
  qed
qed

lemma nat_of_digits_snoc:
  "nat_of_digits (ds @ [c]) = 10 * nat_of_digits ds + (of_char c - 48)"
  by (simp add: nat_of_digits_def)

lemma nat_of_digits_show_nat: "nat_of_digits (show_nat n) = n"
proof (induction n rule: show_nat.induct)
  case (1 n)
  show ?case
  proof (cases "n < 10")
    case True
    then show ?thesis
      by (simp add: show_nat_small nat_of_digits_def)
  next
    case False
    have "n mod 10 < 10" by simp
    then have "(of_char (char_of (48 + n mod 10 :: nat)) :: nat) = 48 + n mod 10"
      by simp
    with False "1.IH" show ?thesis
      by (simp add: show_nat_big nat_of_digits_snoc)
  qed
qed

lemma char_of_digit_not_zero: "0 < d \<Longrightarrow> d < 10 \<Longrightarrow> char_of (48 + d :: nat) \<noteq> CHR ''0''"
proof
  assume d: "0 < d" "d < 10" and eq: "char_of (48 + d) = CHR ''0''"
  from eq have "(of_char (char_of (48 + d)) :: nat) = of_char (CHR ''0'')"
    by simp
  with d show False by simp
qed

lemma show_nat_leading:
  "1 < length (show_nat n) \<Longrightarrow> hd (show_nat n) \<noteq> CHR ''0''"
proof (induction n rule: show_nat.induct)
  case (1 n)
  show ?case
  proof (cases "n < 10")
    case True
    with "1.prems" show ?thesis by (simp add: show_nat_small)
  next
    case False
    note big = False
    show ?thesis
    proof (cases "n div 10 < 10")
      case True
      have pos: "0 < n div 10" using big by simp
      show ?thesis using big True char_of_digit_not_zero [OF pos True]
        by (simp add: show_nat_big [of n] show_nat_small [of "n div 10"])
    next
      case False
      then have "1 < length (show_nat (n div 10))"
        using show_nat_not_Nil [of "n div 10 div 10"]
        by (simp add: show_nat_big [of "n div 10"] Suc_lessI)
      with "1.IH" big have "hd (show_nat (n div 10)) \<noteq> CHR ''0''" by simp
      with big show ?thesis
        by (simp add: show_nat_big [of n] show_nat_not_Nil)
    qed
  qed
qed

lemma takeWhile_show_nat:
  "ok_rest rest \<Longrightarrow> takeWhile is_digit (show_nat n @ rest) = show_nat n"
  by (cases rest) (auto simp: ok_rest_def takeWhile_append2 show_nat_digits)

lemma dropWhile_show_nat:
  "ok_rest rest \<Longrightarrow> dropWhile is_digit (show_nat n @ rest) = rest"
  by (cases rest) (auto simp: ok_rest_def dropWhile_append2 show_nat_digits)

lemma hd_show_nat_digit: "is_digit (hd (show_nat n))"
proof -
  have "hd (show_nat n) \<in> set (show_nat n)" by (simp add: show_nat_not_Nil)
  then show ?thesis by (rule show_nat_digits)
qed

lemma hd_show_nat_not_minus: "hd (show_nat n) \<noteq> CHR ''-''"
  using hd_show_nat_digit [of n] by (auto simp: is_digit_def)

lemma parse_number_show_int:
  assumes "ok_rest rest"
  shows "parse_number (show_int i @ rest) = Some (JNum i, rest)"
proof (cases "i < 0")
  case True
  then show ?thesis
    using takeWhile_show_nat [OF assms, of "nat (- i)"] dropWhile_show_nat [OF assms, of "nat (- i)"]
      show_nat_leading [of "nat (- i)"]
    by (auto simp: parse_number_def show_int_def Let_def show_nat_not_Nil nat_of_digits_show_nat)
next
  case False
  then show ?thesis
    using takeWhile_show_nat [OF assms, of "nat i"] dropWhile_show_nat [OF assms, of "nat i"]
      show_nat_leading [of "nat i"] hd_show_nat_not_minus [of "nat i"]
    by (auto simp: parse_number_def show_int_def Let_def show_nat_not_Nil nat_of_digits_show_nat
        hd_append)
qed

lemma ok_rest_simps [simp]:
  "ok_rest []" "ok_rest (CHR '','' # r)" "ok_rest (CHR '']'' # r)" "ok_rest (CHR ''}'' # r)"
  by (simp_all add: ok_rest_def is_digit_def)

lemma show_int_Cons: "\<exists>c cs. show_int i = c # cs \<and> (c = CHR ''-'' \<or> is_digit c)"
proof (cases "i < 0")
  case True
  then show ?thesis by (simp add: show_int_def)
next
  case False
  obtain c cs where eq: "show_nat (nat i) = c # cs"
    using show_nat_not_Nil [of "nat i"] by (cases "show_nat (nat i)") auto
  with hd_show_nat_digit [of "nat i"] have "is_digit c" by simp
  with eq False show ?thesis by (simp add: show_int_def)
qed

lemma number_start:
  assumes "c = CHR ''-'' \<or> is_digit c"
  shows "c \<noteq> CHR ''[''" "c \<noteq> CHR ''{''" "c \<noteq> dquote" "c \<noteq> CHR ''n''" "c \<noteq> CHR ''t''"
    "c \<noteq> CHR ''f''" "c \<noteq> CHR '']''" "c \<noteq> CHR ''}''"
  using assms by (auto simp: is_digit_def)

lemma parse_value_number:
  "c = CHR ''-'' \<or> is_digit c \<Longrightarrow>
   parse_value (Suc n) (c # s) = parse_number (c # s)"
  by (simp add: number_start)

lemma parse_value_JNum:
  assumes "ok_rest rest"
  shows "parse_value (Suc n) (show_int i @ rest) = Some (JNum i, rest)"
proof -
  obtain c cs where eq: "show_int i = c # cs" and c: "c = CHR ''-'' \<or> is_digit c"
    using show_int_Cons by blast
  have "parse_number (c # cs @ rest) = Some (JNum i, rest)"
    using parse_number_show_int [OF assms, of i] eq by simp
  then show ?thesis
    unfolding eq using parse_value_number [OF c, of n "cs @ rest"] by simp
qed

subsection \<open>Arrays, objects and the whole value\<close>

lemma stringify_Cons:
  "\<exists>c cs. JSON_stringify j = c # cs \<and> c \<noteq> CHR '']'' \<and> c \<noteq> CHR ''}''"
proof (cases j)
  case (JNum i)
  obtain c cs where "show_int i = c # cs" "c = CHR ''-'' \<or> is_digit c"
    using show_int_Cons by blast
  with JNum show ?thesis by (simp add: number_start)
qed (simp_all add: quote_def)

lemma parse_elems_join:
  assumes IH: "\<And>x n rest. x \<in> set xs \<Longrightarrow> length (JSON_stringify x) \<le> n \<Longrightarrow> ok_rest rest
      \<Longrightarrow> parse_value n (JSON_stringify x @ rest) = Some (g x, rest)"
  shows "xs \<noteq> [] \<Longrightarrow> length (join (map JSON_stringify xs)) < n
    \<Longrightarrow> parse_elems n (join (map JSON_stringify xs) @ CHR '']'' # rest) = Some (map g xs, rest)"
  using IH
proof (induction xs arbitrary: n)
  case Nil
  then show ?case by simp
next
  case (Cons x xs)
  from Cons.prems(2) obtain m where n: "n = Suc m" by (cases n) auto
  show ?case
  proof (cases xs)
    case Nil
    have "parse_value m (JSON_stringify x @ CHR '']'' # rest) = Some (g x, CHR '']'' # rest)"
      using Cons.prems(2) n Nil by (intro Cons.prems(3)) simp_all
    then show ?thesis using n Nil by simp
  next
    case (Cons y ys)
    have len: "length (JSON_stringify x) \<le> m" "length (join (map JSON_stringify xs)) < m"
      using Cons.prems(2) n Cons by simp_all
    have "parse_value m (JSON_stringify x @ CHR '','' # join (map JSON_stringify xs) @ CHR '']'' # rest)
        = Some (g x, CHR '','' # join (map JSON_stringify xs) @ CHR '']'' # rest)"
      using len by (intro Cons.prems(3)) simp_all
    moreover have "parse_elems m (join (map JSON_stringify xs) @ CHR '']'' # rest)
        = Some (map g xs, rest)"
      using len Cons by (intro Cons.IH Cons.prems(3)) simp_all
    ultimately show ?thesis using n Cons by simp
  qed
qed

lemma member_text_pair: "member_text (k, v) = quote k @ CHR '':'' # JSON_stringify v"
  by (simp add: member_text_def)

lemma parse_member_key:
  "parse_members (Suc m) (quote k @ CHR '':'' # s) =
     (case parse_value m s of
        None \<Rightarrow> None
      | Some (v, r) \<Rightarrow>
          (case r of
             [] \<Rightarrow> None
           | c # r' \<Rightarrow>
               if c = CHR '','' then map_option (apfst ((#) (k, v))) (parse_members m r')
               else if c = CHR ''}'' then Some ([(k, v)], r')
               else None))"
proof -
  have "parse_string (concat (map escape_char k) @ dquote # CHR '':'' # s) = Some (k, CHR '':'' # s)"
    by (rule parse_string_escape)
  then show ?thesis by (simp add: quote_def)
qed

lemma parse_members_join:
  assumes IH: "\<And>p n rest. p \<in> set ps \<Longrightarrow> length (JSON_stringify (snd p)) \<le> n \<Longrightarrow> ok_rest rest
      \<Longrightarrow> parse_value n (JSON_stringify (snd p) @ rest) = Some (g (snd p), rest)"
  shows "ps \<noteq> [] \<Longrightarrow> length (join (map member_text ps)) < n
    \<Longrightarrow> parse_members n (join (map member_text ps) @ CHR ''}'' # rest)
      = Some (map (map_prod id g) ps, rest)"
  using IH
proof (induction ps arbitrary: n)
  case Nil
  then show ?case by simp
next
  case (Cons p ps)
  obtain k v where p: "p = (k, v)" by (cases p)
  from Cons.prems(2) obtain m where n: "n = Suc m" by (cases n) auto
  show ?case
  proof (cases ps)
    case Nil
    have "length (JSON_stringify v) \<le> m"
      using Cons.prems(2) n Nil p by (simp add: member_text_pair)
    then have "parse_value m (JSON_stringify v @ CHR ''}'' # rest) = Some (g v, CHR ''}'' # rest)"
      using p Cons.prems(3) [of p m "CHR ''}'' # rest"] by simp
    then show ?thesis using n Nil p
      by (simp add: member_text_pair parse_member_key del: parse_members.simps)
  next
    case (Cons q qs)
    have len: "length (JSON_stringify v) \<le> m" "length (join (map member_text ps)) < m"
      using Cons.prems(2) n Cons p by (simp_all add: member_text_pair)
    have "parse_value m (JSON_stringify v @ CHR '','' # join (map member_text ps) @ CHR ''}'' # rest)
        = Some (g v, CHR '','' # join (map member_text ps) @ CHR ''}'' # rest)"
      using len p Cons.prems(3) [of p m "CHR '','' # join (map member_text ps) @ CHR ''}'' # rest"]
      by simp
    moreover have "parse_members m (join (map member_text ps) @ CHR ''}'' # rest)
        = Some (map (map_prod id g) ps, rest)"
      using len Cons by (intro Cons.IH Cons.prems(3)) simp_all
    ultimately show ?thesis using n Cons p
      by (simp add: member_text_pair parse_member_key id_def del: parse_members.simps)
  qed
qed

lemma stringify_JObj:
  "JSON_stringify (JObj ps) = CHR ''{'' # join (map member_text ps) @ ''}''"
proof -
  have "(\<lambda>p. quote (fst p) @ CHR '':'' # JSON_stringify (snd p)) = member_text"
    by (rule ext) (simp add: member_text_def)
  then show ?thesis by simp
qed

lemma join_not_close:
  assumes "xs \<noteq> []" and "\<And>x. \<exists>c cs. f x = c # cs \<and> c \<noteq> e"
  shows "\<exists>c cs. join (map f xs) = c # cs \<and> c \<noteq> e"
proof (cases xs)
  case Nil
  with assms show ?thesis by simp
next
  case (Cons x ys)
  obtain c cs where "f x = c # cs" "c \<noteq> e" using assms(2) by blast
  with Cons show ?thesis by (cases ys) auto
qed

lemma member_text_Cons: "\<exists>c cs. member_text p = c # cs \<and> c \<noteq> CHR ''}''"
  by (simp add: member_text_def quote_def)

lemma show_int_zero: "show_int 0 = ''0''"
  by code_simp

lemma parse_value_zero:
  assumes "ok_rest rest"
  shows "parse_value (Suc n) (CHR ''0'' # rest) = Some (JNum 0, rest)"
  using parse_value_JNum [OF assms, of n 0] unfolding show_int_zero
  by (simp del: parse_value.simps)

lemma parse_value_stringify:
  "length (JSON_stringify j) \<le> n \<Longrightarrow> ok_rest rest
    \<Longrightarrow> parse_value n (JSON_stringify j @ rest) = Some (read_back j, rest)"
proof (induction j arbitrary: n rest)
  case JNull
  then show ?case by (cases n) simp_all
next
  case JNegZero
  from JNegZero.prems(1) obtain m where "n = Suc m" by (cases n) auto
  then show ?case using parse_value_zero [OF JNegZero.prems(2)] by simp
next
  case (JBool b)
  then show ?case by (cases n; cases b) simp_all
next
  case (JNum i)
  from JNum.prems(1) show_int_Cons [of i] obtain m where "n = Suc m"
    by (cases n) auto
  then show ?case using parse_value_JNum [OF JNum.prems(2)] by simp
next
  case (JStr s)
  from JStr.prems(1) obtain m where "n = Suc m"
    by (cases n) (auto simp: quote_def)
  then show ?case by (simp add: quote_def parse_string_escape)
next
  case (JArr xs)
  from JArr.prems(1) obtain m where n: "n = Suc m" by (cases n) auto
  show ?case
  proof (cases "xs = []")
    case True
    then show ?thesis using n by simp
  next
    case False
    obtain c cs where c: "join (map JSON_stringify xs) = c # cs" "c \<noteq> CHR '']''"
      using join_not_close [OF False, of JSON_stringify "CHR '']''"] stringify_Cons by blast
    have "parse_elems m (join (map JSON_stringify xs) @ CHR '']'' # rest)
        = Some (map read_back xs, rest)"
      using False JArr.prems(1) n
      by (intro parse_elems_join JArr.IH) simp_all
    then show ?thesis using n c by simp
  qed
next
  case (JObj ps)
  from JObj.prems(1) obtain m where n: "n = Suc m" by (cases n) auto
  show ?case
  proof (cases "ps = []")
    case True
    then show ?thesis using n by simp
  next
    case False
    obtain c cs where c: "join (map member_text ps) = c # cs" "c \<noteq> CHR ''}''"
      using join_not_close [OF False, of member_text "CHR ''}''"] member_text_Cons by blast
    have IH: "\<And>p n rest. p \<in> set ps \<Longrightarrow> length (JSON_stringify (snd p)) \<le> n \<Longrightarrow> ok_rest rest
      \<Longrightarrow> parse_value n (JSON_stringify (snd p) @ rest) = Some (read_back (snd p), rest)"
    proof -
      fix p :: "string \<times> json" and n rest
      assume p: "p \<in> set ps" and l: "length (JSON_stringify (snd p)) \<le> n" and r: "ok_rest rest"
      have "snd p \<in> Basic_BNFs.snds p" by (cases p) simp
      from JObj.IH [OF p this l r]
      show "parse_value n (JSON_stringify (snd p) @ rest) = Some (read_back (snd p), rest)" .
    qed
    have len: "length (join (map member_text ps)) < m"
      using JObj.prems(1) n unfolding stringify_JObj by simp
    have "parse_members m (join (map member_text ps) @ CHR ''}'' # rest)
        = Some (map (map_prod id read_back) ps, rest)"
      using False len by (intro parse_members_join IH) simp_all
    then show ?thesis using n c by (simp add: stringify_JObj del: JSON_stringify.simps)
  qed
qed

lemma JSON_parse_stringify: "JSON_parse (JSON_stringify j) = Some (read_back j)"
  using parse_value_stringify [of j "length (JSON_stringify j)" "[]"]
  by (simp add: JSON_parse_def)

lemma stringify_read_back: "JSON_stringify (read_back j) = JSON_stringify j"
proof (induction j)
  case (JArr xs)
  then have "map (\<lambda>x. JSON_stringify (read_back x)) xs = map JSON_stringify xs"
    by (intro map_cong) simp_all
  then have "join (map (\<lambda>x. JSON_stringify (read_back x)) xs) = join (map JSON_stringify xs)"
    by (rule arg_cong)
  then show ?case by (simp add: comp_def)
next
  case (JObj ps)
  have "\<And>p. p \<in> set ps \<Longrightarrow> JSON_stringify (read_back (snd p)) = JSON_stringify (snd p)"
  proof -
    fix p assume p: "p \<in> set ps"
    have "snd p \<in> Basic_BNFs.snds p" by (cases p) simp
    with JObj.IH p show "JSON_stringify (read_back (snd p)) = JSON_stringify (snd p)" by blast
  qed
  then have "map (\<lambda>p. quote (fst p) @ CHR '':'' # JSON_stringify (read_back (snd p))) ps
      = map (\<lambda>p. quote (fst p) @ CHR '':'' # JSON_stringify (snd p)) ps"
    by (intro map_cong) simp_all
  then have "join (map (\<lambda>p. quote (fst p) @ CHR '':'' # JSON_stringify (read_back (snd p))) ps)
      = join (map (\<lambda>p. quote (fst p) @ CHR '':'' # JSON_stringify (snd p)) ps)"
    by (rule arg_cong)
  then show ?case by (simp add: comp_def)
qed (simp_all add: show_int_zero)

lemma read_back_strings: "read_back (JArr (map JStr keys)) = JArr (map JStr keys)"
  by (induction keys) simp_all

lemma read_back_composite:
  "read_back (JObj (map (map_prod id (\<lambda>keys. JArr (map JStr keys))) xs))
     = JObj (map (map_prod id (\<lambda>keys. JArr (map JStr keys))) xs)"
proof -
  have "map (\<lambda>x. map_prod id read_back (map_prod id (\<lambda>keys. JArr (map JStr keys)) x)) xs
      = map (map_prod id (\<lambda>keys. JArr (map JStr keys))) xs"
    by (intro map_cong) (simp_all add: read_back_strings map_prod_def case_prod_beta
        del: read_back.simps)
  then show ?thesis by (simp add: comp_def)
qed

section \<open>The value codec: stable keys and their restoration\<close>

lemma newDate_toJSON:
  "d \<noteq> InvalidDate \<Longrightarrow> (case d of ValidDate t \<Rightarrow> iso_text t | InvalidDate \<Rightarrow> True)
    \<Longrightarrow> newDate (Some (toJSON d)) = d"
  by (cases d) simp_all

lemma serializeValue_JStr: "serializeValue x = JStr t \<longleftrightarrow> x = VStr t"
  by (induction x rule: serializeValue.induct) auto

lemma map_of_map_values:
  "map_of (map (map_prod id f) ps) k = map_option f (map_of ps k)"
  by (induction ps) auto

lemma map_of_serialized:
  "map_of (map (map_prod id serializeValue) ps) k = map_option serializeValue (map_of ps k)"
  by (rule map_of_map_values)

lemma isTypeMarker_serialized:
  "(case map_of ps ''__type'' of Some (VStr t) \<Rightarrow> False | _ \<Rightarrow> True)
    \<Longrightarrow> isTypeMarker (JObj (map (map_prod id serializeValue) ps)) = None"
proof (cases "map_of ps ''__type''")
  case None
  then show ?thesis by (simp add: map_of_serialized)
next
  case (Some x)
  assume "case map_of ps ''__type'' of Some (VStr t) \<Rightarrow> False | _ \<Rightarrow> True"
  with Some have "\<And>t. x \<noteq> VStr t" by (auto split: jsval.splits)
  then have "\<And>t. serializeValue x \<noteq> JStr t" by (simp add: serializeValue_JStr)
  with Some show ?thesis
    by (simp add: map_of_serialized split: json.splits)
qed

lemma deserialize_serialize:
  "restorable v \<Longrightarrow> js_value v \<Longrightarrow> deserializeValue (serializeValue v) = v"
proof (induction v)
  case (VNum n)
  then show ?case by (cases n) simp_all
next
  case (VDate d)
  then show ?case by (simp add: newDate_toJSON)
next
  case (VArr xs)
  then have "map (\<lambda>x. deserializeValue (serializeValue x)) xs = xs"
    by (induction xs) (auto simp: list_all_iff)
  then show ?case by (simp add: comp_def)
next
  case (VObj ps)
  have marker: "isTypeMarker (JObj (map (map_prod id serializeValue) ps)) = None"
    using VObj.prems by (intro isTypeMarker_serialized) simp
  have "\<And>p. p \<in> set ps \<Longrightarrow> deserializeValue (serializeValue (snd p)) = snd p"
  proof -
    fix p assume p: "p \<in> set ps"
    have "snd p \<in> Basic_BNFs.snds p" by (cases p) simp
    moreover have "restorable (snd p)" "js_value (snd p)"
      using p VObj.prems by (auto simp: list_all_iff)
    ultimately show "deserializeValue (serializeValue (snd p)) = snd p"
      using VObj.IH p by blast
  qed
  then have "\<And>p. p \<in> set ps \<Longrightarrow> map_prod id deserializeValue (map_prod id serializeValue p) = p"
    by (simp add: map_prod_def case_prod_beta)
  then have "map (\<lambda>p. map_prod id deserializeValue (map_prod id serializeValue p)) ps = ps"
    by (rule map_idI)
  with marker show ?case
    by (simp add: comp_def del: isTypeMarker.simps)
qed simp_all

subsection \<open>Negative zero\<close>

lemma read_back_serialize: "read_back (serializeValue v) = serializeValue (positive_zeros v)"
proof (induction v)
  case (VNum n)
  then show ?case by (cases n) simp_all
next
  case (VDate d)
  then show ?case by (cases d) simp_all
next
  case (VArr xs)
  then have "map (\<lambda>x. read_back (serializeValue x)) xs
      = map (\<lambda>x. serializeValue (positive_zeros x)) xs"
    by (intro map_cong) simp_all
  then show ?case by (simp add: comp_def)
next
  case (VObj ps)
  have "\<And>p. p \<in> set ps
      \<Longrightarrow> read_back (serializeValue (snd p)) = serializeValue (positive_zeros (snd p))"
  proof -
    fix p assume p: "p \<in> set ps"
    have "snd p \<in> Basic_BNFs.snds p" by (cases p) simp
    with VObj.IH p
    show "read_back (serializeValue (snd p)) = serializeValue (positive_zeros (snd p))" by blast
  qed
  then have "map (\<lambda>p. map_prod id read_back (map_prod id serializeValue p)) ps
      = map (\<lambda>p. map_prod id serializeValue (map_prod id positive_zeros p)) ps"
    by (intro map_cong) (simp_all add: map_prod_def case_prod_beta)
  then show ?case by (simp add: comp_def)
qed simp_all

lemma toKey_positive_zeros: "toKey (positive_zeros v) = toKey v"
  using stringify_read_back [of "serializeValue v"]
  by (simp add: toKey_def read_back_serialize)

lemma positive_zeros_VStr: "positive_zeros x = VStr t \<longleftrightarrow> x = VStr t"
  by (cases x) auto

lemma restorable_positive_zeros: "restorable v \<Longrightarrow> restorable (positive_zeros v)"
proof (induction v)
  case (VArr xs)
  then show ?case by (auto simp: list_all_iff)
next
  case (VObj ps)
  have "case map_of (map (map_prod id positive_zeros) ps) ''__type'' of
          Some (VStr t) \<Rightarrow> False | _ \<Rightarrow> True"
  proof (cases "map_of ps ''__type''")
    case None
    then show ?thesis by (simp add: map_of_map_values)
  next
    case (Some x)
    with VObj.prems have "\<And>t. x \<noteq> VStr t" by (auto split: jsval.splits)
    then have "\<And>t. positive_zeros x \<noteq> VStr t" by (simp add: positive_zeros_VStr)
    with Some show ?thesis by (simp add: map_of_map_values split: jsval.splits)
  qed
  moreover have "restorable (positive_zeros (snd p))" if "p \<in> set ps" for p
  proof -
    have "snd p \<in> Basic_BNFs.snds p" by (cases p) simp
    moreover have "restorable (snd p)" using that VObj.prems by (auto simp: list_all_iff)
    ultimately show ?thesis using VObj.IH that by blast
  qed
  ultimately show ?case by (auto simp: list_all_iff)
qed simp_all

lemma js_value_positive_zeros: "js_value v \<Longrightarrow> js_value (positive_zeros v)"
proof (induction v)
  case (VNum n)
  then show ?case by (cases n) (simp_all add: safe_integer_def)
next
  case (VArr xs)
  then show ?case by (auto simp: list_all_iff)
next
  case (VObj ps)
  have "js_value (positive_zeros (snd p))" if "p \<in> set ps" for p
  proof -
    have "snd p \<in> Basic_BNFs.snds p" by (cases p) simp
    moreover have "js_value (snd p)" using that VObj.prems by (auto simp: list_all_iff)
    ultimately show ?thesis using VObj.IH that by blast
  qed
  with VObj.prems show ?case by (auto simp: list_all_iff comp_def)
qed simp_all

lemma positive_zeros_idem: "positive_zeros (positive_zeros v) = positive_zeros v"
proof (induction v)
  case (VNum n)
  then show ?case by (cases n) simp_all
next
  case (VArr xs)
  then have "map (\<lambda>x. positive_zeros (positive_zeros x)) xs = map positive_zeros xs"
    by (intro map_cong) simp_all
  then show ?case by (simp add: comp_def)
next
  case (VObj ps)
  have "\<And>p. p \<in> set ps \<Longrightarrow> positive_zeros (positive_zeros (snd p)) = positive_zeros (snd p)"
  proof -
    fix p assume p: "p \<in> set ps"
    have "snd p \<in> Basic_BNFs.snds p" by (cases p) simp
    with VObj.IH p
    show "positive_zeros (positive_zeros (snd p)) = positive_zeros (snd p)" by blast
  qed
  then have "map (\<lambda>p. map_prod id positive_zeros (map_prod id positive_zeros p)) ps
      = map (map_prod id positive_zeros) ps"
    by (intro map_cong) (simp_all add: map_prod_def case_prod_beta)
  then show ?case by (simp add: comp_def)
qed simp_all

lemma fromKey_toKey:
  "restorable v \<Longrightarrow> js_value v \<Longrightarrow> fromKey (toKey v) = Some (positive_zeros v)"
  by (simp add: fromKey_def toKey_def JSON_parse_stringify read_back_serialize
      deserialize_serialize restorable_positive_zeros js_value_positive_zeros)

subsection \<open>Deep equality and the order of properties\<close>

lemma deep_equal_same_order:
  "deep_equal v w \<Longrightarrow> same_property_order v w \<Longrightarrow> positive_zeros v = positive_zeros w"
proof (induction v arbitrary: w)
  case (VArr xs)
  from VArr.prems(1) obtain ys where w: "w = VArr ys" by (cases w) simp_all
  have len: "length xs = length ys"
    using VArr.prems(1) w by (simp add: list_all2_lengthD)
  have "positive_zeros (xs ! i) = positive_zeros (ys ! i)" if "i < length xs" for i
  proof -
    have "deep_equal (xs ! i) (ys ! i)" "same_property_order (xs ! i) (ys ! i)"
      using VArr.prems w that by (simp_all add: list_all2_nthD)
    moreover have "xs ! i \<in> set xs" using that by simp
    ultimately show ?thesis using VArr.IH by blast
  qed
  with len have "map positive_zeros xs = map positive_zeros ys"
    by (intro nth_equalityI) simp_all
  with w show ?case by simp
next
  case (VObj ps)
  from VObj.prems(1) obtain qs where w: "w = VObj qs" by (cases w) simp_all
  have keys: "map fst ps = map fst qs" using VObj.prems(2) w by simp
  then have len: "length ps = length qs" by (rule map_eq_imp_length_eq)
  have "map_prod id positive_zeros (ps ! i) = map_prod id positive_zeros (qs ! i)"
    if "i < length ps" for i
  proof -
    have fst_eq: "fst (ps ! i) = fst (qs ! i)"
      using keys that len by (metis nth_map)
    have mem: "ps ! i \<in> set ps" "qs ! i \<in> set qs" using that len by simp_all
    have "deep_equal (snd (ps ! i)) (snd (qs ! i))"
      using VObj.prems(1) w mem fst_eq by (cases "ps ! i"; cases "qs ! i") auto
    moreover have "same_property_order (snd (ps ! i)) (snd (qs ! i))"
      using VObj.prems(2) w that len list_all2_nthD [of same_property_order "map snd ps" "map snd qs" i]
      by simp
    moreover have "snd (ps ! i) \<in> Basic_BNFs.snds (ps ! i)" by (cases "ps ! i") simp
    ultimately have "positive_zeros (snd (ps ! i)) = positive_zeros (snd (qs ! i))"
      using VObj.IH mem(1) by blast
    with fst_eq show ?thesis by (cases "ps ! i"; cases "qs ! i") simp
  qed
  with len have "map (map_prod id positive_zeros) ps = map (map_prod id positive_zeros) qs"
    by (intro nth_equalityI) simp_all
  with w show ?case by simp
next
  case (VNum n)
  then show ?case by (cases w) simp_all
qed simp_all

lemma same_order_deep_equal:
  "js_value v \<Longrightarrow> positive_zeros v = positive_zeros w
    \<Longrightarrow> deep_equal v w \<and> same_property_order v w"
proof (induction v arbitrary: w)
  case (VArr xs)
  from VArr.prems(2) obtain ys where w: "w = VArr ys" by (cases w) simp_all
  have eq: "map positive_zeros xs = map positive_zeros ys" using VArr.prems(2) w by simp
  then have len: "length xs = length ys" by (rule map_eq_imp_length_eq)
  have "deep_equal (xs ! i) (ys ! i) \<and> same_property_order (xs ! i) (ys ! i)"
    if "i < length xs" for i
  proof -
    have "positive_zeros (xs ! i) = positive_zeros (ys ! i)"
      using eq that len by (metis nth_map)
    moreover have "xs ! i \<in> set xs" using that by simp
    moreover from this have "js_value (xs ! i)" using VArr.prems(1) by (auto simp: list_all_iff)
    ultimately show ?thesis using VArr.IH by blast
  qed
  with len w show ?case by (simp add: list_all2_conv_all_nth)
next
  case (VObj ps)
  from VObj.prems(2) obtain qs where w: "w = VObj qs" by (cases w) simp_all
  have eq: "map (map_prod id positive_zeros) ps = map (map_prod id positive_zeros) qs"
    using VObj.prems(2) w by simp
  then have len: "length ps = length qs" by (rule map_eq_imp_length_eq)
  have "map fst (map (map_prod id positive_zeros) ps) = map fst (map (map_prod id positive_zeros) qs)"
    using eq by simp
  then have keys: "map fst ps = map fst qs" by (simp add: comp_def)
  have dist: "distinct (map fst ps)"
    using VObj.prems(1) by (simp add: own_property_order_def)
  have at: "deep_equal (snd (ps ! i)) (snd (qs ! i))
      \<and> same_property_order (snd (ps ! i)) (snd (qs ! i))" if "i < length ps" for i
  proof -
    have "map_prod id positive_zeros (ps ! i) = map_prod id positive_zeros (qs ! i)"
      using eq that len by (metis nth_map)
    then have "positive_zeros (snd (ps ! i)) = positive_zeros (snd (qs ! i))"
      by (cases "ps ! i"; cases "qs ! i") simp
    moreover have mem: "ps ! i \<in> set ps" using that by simp
    moreover have "snd (ps ! i) \<in> Basic_BNFs.snds (ps ! i)" by (cases "ps ! i") simp
    moreover have "js_value (snd (ps ! i))"
      using mem VObj.prems(1) by (auto simp: list_all_iff)
    ultimately show ?thesis using VObj.IH by blast
  qed
  have "deep_equal x y" if "(k, x) \<in> set ps" "(k, y) \<in> set qs" for k x y
  proof -
    from that(1) obtain i where i: "i < length ps" "ps ! i = (k, x)"
      by (auto simp: in_set_conv_nth)
    from that(2) obtain j where j: "j < length qs" "qs ! j = (k, y)"
      by (auto simp: in_set_conv_nth)
    have "map fst ps ! i = k" using i by simp
    moreover have "map fst ps ! j = k" using j keys len by (metis fst_conv nth_map)
    ultimately have "i = j"
      using dist i(1) j(1) len by (metis length_map nth_eq_iff_index_eq)
    with at [OF i(1)] i j show ?thesis by simp
  qed
  then have "\<forall>(k, x) \<in> set ps. \<forall>(k', y) \<in> set qs. k = k' \<longrightarrow> deep_equal x y"
    by blast
  moreover have "list_all2 same_property_order (map snd ps) (map snd qs)"
    using at len by (simp add: list_all2_conv_all_nth)
  moreover have "set (map fst ps) = set (map fst qs)" "distinct (map fst qs)"
    using keys dist by simp_all
  ultimately show ?case using w keys dist by simp
next
  case (VNum n)
  then show ?case by (cases w) simp_all
next
  case VUndefined
  then show ?case by (cases w) simp_all
next
  case VNull
  then show ?case by (cases w) simp_all
next
  case (VBool b)
  then show ?case by (cases w) auto
next
  case (VStr t)
  then show ?case by (cases w) auto
next
  case (VDate d)
  then show ?case by (cases w) auto
qed

text \<open>
  Claim C8, as the code has it. The claim as stated fails twice: two mappings with the
  same properties in a different order are deep-equal and get different keys; and the
  mapping \<^verbatim>\<open>{__type: 'nan'}\<close> is restored as not-a-number.
\<close>

theorem toKey_reordered_counterexample:
  "js_value (VObj [(''a'', VNum (Fin 1)), (''b'', VNum (Fin 2))])
   \<and> js_value (VObj [(''b'', VNum (Fin 2)), (''a'', VNum (Fin 1))])
   \<and> deep_equal (VObj [(''a'', VNum (Fin 1)), (''b'', VNum (Fin 2))])
                (VObj [(''b'', VNum (Fin 2)), (''a'', VNum (Fin 1))])
   \<and> toKey (VObj [(''a'', VNum (Fin 1)), (''b'', VNum (Fin 2))])
       \<noteq> toKey (VObj [(''b'', VNum (Fin 2)), (''a'', VNum (Fin 1))])
   \<and> js_value (VObj [(''__type'', VStr ''nan'')])
   \<and> fromKey (toKey (VObj [(''__type'', VStr ''nan'')])) = Some (VNum NaN)
   \<and> \<not> deep_equal (VNum NaN) (VObj [(''__type'', VStr ''nan'')])"
  by code_simp

text \<open>
  Claim C8, what holds instead, for values without an invalid date and without a mapping
  that has a string-valued \<^verbatim>\<open>__type\<close> property. Two such values get the same key exactly
  when they are deep-equal and list the properties of their mappings in the same order;
  and restoring the key of a value gives a value that is deep-equal to it, with the same
  order of properties (negative zero comes back as positive zero, the same number).
\<close>

theorem toKey_fromKey_roundtrip:
  assumes "js_value v" and "js_value w" and "restorable v" and "restorable w"
  shows "(toKey v = toKey w \<longleftrightarrow> deep_equal v w \<and> same_property_order v w)
    \<and> (\<exists>r. fromKey (toKey v) = Some r \<and> deep_equal r v \<and> same_property_order r v)"
proof -
  have "deep_equal v w \<and> same_property_order v w" if "toKey v = toKey w"
  proof -
    from that have "fromKey (toKey v) = fromKey (toKey w)" by simp
    then have "positive_zeros v = positive_zeros w"
      using assms by (simp add: fromKey_toKey)
    with assms(1) show ?thesis by (rule same_order_deep_equal)
  qed
  moreover have "toKey v = toKey w" if "deep_equal v w \<and> same_property_order v w"
  proof -
    from that have "positive_zeros v = positive_zeros w" by (simp add: deep_equal_same_order)
    then have "toKey (positive_zeros v) = toKey (positive_zeros w)" by simp
    then show ?thesis by (simp add: toKey_positive_zeros)
  qed
  moreover have "fromKey (toKey v) = Some (positive_zeros v)"
    using assms by (simp add: fromKey_toKey)
  moreover have "deep_equal (positive_zeros v) v \<and> same_property_order (positive_zeros v) v"
    using assms(1) by (intro same_order_deep_equal js_value_positive_zeros positive_zeros_idem)
  ultimately show ?thesis by blast
qed

text \<open>
  The sample value and the same value with its zeros made positive get the same key, and
  the key of the sample value is restored to a deep-equal value.
\<close>

theorem toKey_fromKey_roundtrip_witness:
  "toKey sample_value = toKey sample_restored
   \<and> (\<exists>r. fromKey (toKey sample_value) = Some r \<and> deep_equal r sample_value
          \<and> same_property_order r sample_value)
   \<and> fromKey (toKey sample_value) = Some sample_restored"
proof -
  have "js_value sample_value" "js_value sample_restored" by code_simp+
  moreover have "restorable sample_value" "restorable sample_restored" by code_simp+
  moreover have "deep_equal sample_value sample_restored
      \<and> same_property_order sample_value sample_restored"
    by code_simp
  moreover have "fromKey (toKey sample_value) = Some sample_restored" by code_simp
  ultimately show ?thesis
    using toKey_fromKey_roundtrip [of sample_value sample_restored] by blast
qed

section \<open>The predicate extractor\<close>

lemma propRefMatchesField_spec: "propRefMatchesField e f = references_field e f"
proof (cases e)
  case (PropRef path)
  show ?thesis
  proof (cases path)
    case Nil
    with PropRef show ?thesis by simp
  next
    case (Cons a as)
    note c1 = Cons
    show ?thesis
    proof (cases as)
      case Nil
      with PropRef c1 show ?thesis by simp
    next
      case (Cons b bs)
      with PropRef c1 show ?thesis by (cases bs) simp_all
    qed
  qed
qed simp_all

lemma extractFromEq_spec: "extractFromEq args f = equality_values f args"
proof (cases args)
  case Nil
  then show ?thesis by (simp add: extractFromEq_def)
next
  case (Cons l as)
  note c1 = Cons
  show ?thesis
  proof (cases as)
    case Nil
    with c1 show ?thesis by (simp add: extractFromEq_def)
  next
    case (Cons r bs)
    note c2 = Cons
    show ?thesis
    proof (cases bs)
      case Nil
      with c1 c2 show ?thesis
        by (cases l; cases r)
           (simp_all add: extractFromEq_def Let_def propRefMatchesField_spec [symmetric])
    next
      case (Cons x xs)
      with c1 c2 show ?thesis by (simp add: extractFromEq_def)
    qed
  qed
qed

lemma extractFromIn_spec: "extractFromIn args f = membership_values f args"
proof (cases args)
  case Nil
  then show ?thesis by (simp add: extractFromIn_def)
next
  case (Cons l as)
  note c1 = Cons
  show ?thesis
  proof (cases as)
    case Nil
    with c1 show ?thesis by (simp add: extractFromIn_def)
  next
    case (Cons r bs)
    note c2 = Cons
    show ?thesis
    proof (cases bs)
      case Nil
      show ?thesis
      proof (cases r)
        case (Val v)
        with c1 c2 Nil show ?thesis
          by (cases l; cases v)
             (simp_all add: extractFromIn_def Let_def propRefMatchesField_spec [symmetric])
      next
        case (PropRef path)
        with c1 c2 Nil show ?thesis by (simp add: extractFromIn_def Let_def)
      next
        case (Func name operands)
        with c1 c2 Nil show ?thesis by (simp add: extractFromIn_def Let_def)
      qed
    next
      case (Cons x xs)
      with c1 c2 show ?thesis by (simp add: extractFromIn_def)
    qed
  qed
qed

lemma concat_map_concat:
  "concat (map g (concat xss)) = concat (map (\<lambda>xs. concat (map g xs)) xss)"
  by (induction xss) simp_all

lemma walkExpression_spec: "walkExpression w f = constrained_values w f"
proof (induction w f rule: walkExpression.induct)
  case (1 name args filterField)
  show ?case
  proof (cases "name = ''eq'' \<or> name = ''in''")
    case True
    then show ?thesis
      by (auto simp: constrained_values_def extractFromEq_spec extractFromIn_spec)
  next
    case False
    have "map (\<lambda>arg. walkExpression arg filterField) args
        = map (\<lambda>arg. constrained_values arg filterField) args"
    proof (cases "name = ''and'' \<or> name = ''or''")
      case True
      with False "1.IH"(1) show ?thesis by (intro map_cong) simp_all
    next
      case nb: False
      with False "1.IH"(2) show ?thesis by (intro map_cong) simp_all
    qed
    then have "concat (map (\<lambda>arg. walkExpression arg filterField) args)
        = concat (map (\<lambda>arg. constrained_values arg filterField) args)"
      by (rule arg_cong)
    with False show ?thesis
      by (simp add: constrained_values_def concat_map_concat comp_def)
  qed
qed (simp_all add: constrained_values_def)

lemma unique_loop_first_seen:
  "unique_loop seen acc vs = acc @ first_seen (filter (\<lambda>w. toKey w \<notin> seen) vs)"
proof (induction vs arbitrary: seen acc)
  case Nil
  then show ?case by simp
next
  case (Cons v vs)
  have "filter (\<lambda>w. toKey w \<noteq> toKey v) (filter (\<lambda>w. toKey w \<notin> seen) vs)
      = filter (\<lambda>w. toKey w \<notin> insert (toKey v) seen) vs"
    by (induction vs) auto
  with Cons show ?case by (simp add: Let_def)
qed

lemma set_first_seen: "set (first_seen vs) \<subseteq> set vs"
  by (induction vs rule: first_seen.induct) auto

lemma distinct_first_seen: "distinct (map toKey (first_seen vs))"
proof (induction vs rule: first_seen.induct)
  case 1
  then show ?case by simp
next
  case (2 v vs)
  have "toKey v \<notin> toKey ` set (first_seen (filter (\<lambda>w. toKey w \<noteq> toKey v) vs))"
    using set_first_seen [of "filter (\<lambda>w. toKey w \<noteq> toKey v) vs"] by auto
  with 2 show ?case by simp
qed

text \<open>
  Claim C9. Without a predicate tree the extractor returns the empty list. With a tree it
  returns the literal values of the comparisons of the tree for the field: of every
  equality with a reference to the field on one side and a literal on the other, and of
  every set membership with a reference to the field on the left and a literal array on
  the right, reached through conjunctions, disjunctions and any other function node;
  deduplicated by stable key in first-seen order, so that the keys of the result are
  pairwise different.
\<close>

theorem extractFilterValues_spec:
  "extractFilterValues None fieldName = []
   \<and> extractFilterValues (Some w) fieldName = first_seen (constrained_values w fieldName)
   \<and> distinct (map toKey (extractFilterValues options fieldName))"
  by (cases options)
     (simp_all add: extractFilterValues_def unique_loop_first_seen walkExpression_spec
        distinct_first_seen)

text \<open>
  On the example tree: \<open>p1\<close> through an alias, the members of the array with the
  repeated \<open>p1\<close> dropped, \<open>p3\<close> from the reversed equality, \<open>null\<close> from under the
  negation; nothing from the three-segment path, from the memberships without an array on
  the right or with the reference on the right, from below an equality, from an equality
  of two references or of three operands, or from operands that are no function nodes.
\<close>

theorem extractFilterValues_spec_witness:
  "extractFilterValues (Some example_predicate) ''pageId''
     = [VStr ''p1'', VStr ''p2'', VNum (Fin 3), VStr ''p3'', VNull]
   \<and> extractFilterValues (Some example_predicate) ''status'' = [VStr ''open'']
   \<and> extractFilterValues (Some example_predicate) ''other'' = []
   \<and> extractFilterValues None ''pageId'' = []"
proof -
  have "first_seen (constrained_values example_predicate ''pageId'')
      = [VStr ''p1'', VStr ''p2'', VNum (Fin 3), VStr ''p3'', VNull]"
    by code_simp
  moreover have "first_seen (constrained_values example_predicate ''status'') = [VStr ''open'']"
    by code_simp
  moreover have "first_seen (constrained_values example_predicate ''other'') = []"
    by code_simp
  ultimately show ?thesis
    using extractFilterValues_spec [of "''pageId''" example_predicate "None"]
      extractFilterValues_spec [of "''status''" example_predicate "None"]
      extractFilterValues_spec [of "''other''" example_predicate "None"]
    by simp
qed

section \<open>What each operation leaves unchanged\<close>

lemma updateSubscription_shape:
  "snd (updateSubscription cfg s)
     = s\<lparr>currentSubscription := currentSubscription (snd (updateSubscription cfg s)),
         messagesSinceSubscription := 0\<rparr>"
  by (auto simp: updateSubscription_def Let_def split: option.splits)

lemma updateSubscription_frame [simp]:
  "activeDimensions (snd (updateSubscription cfg s)) = activeDimensions s"
  "refCounts (snd (updateSubscription cfg s)) = refCounts s"
  "pendingFilters (snd (updateSubscription cfg s)) = pendingFilters s"
  "globalCursor (snd (updateSubscription cfg s)) = globalCursor s"
  "debounceTimer (snd (updateSubscription cfg s)) = debounceTimer s"
  "isProcessing (snd (updateSubscription cfg s)) = isProcessing s"
  "markedReady (snd (updateSubscription cfg s)) = markedReady s"
  "hasRequestedGlobal (snd (updateSubscription cfg s)) = hasRequestedGlobal s"
  "globalRefCount (snd (updateSubscription cfg s)) = globalRefCount s"
  "callbacks (snd (updateSubscription cfg s)) = callbacks s"
  "promises (snd (updateSubscription cfg s)) = promises s"
  "backfill (snd (updateSubscription cfg s)) = backfill s"
  "hostCalls (snd (updateSubscription cfg s)) = hostCalls s"
  by (subst updateSubscription_shape, simp)+

lemma request_entries_shape:
  "snd (request_entries cfg fs s h)
     = s\<lparr>pendingFilters := pendingFilters (snd (request_entries cfg fs s h))\<rparr>"
proof (induction fs arbitrary: s h)
  case Nil
  then show ?case by simp
next
  case (Cons p fs)
  obtain arg vals where p: "p = (arg, vals)" by (cases p)
  show ?case
  proof (cases "map_of (activeDimensions s) arg")
    case None
    with p Cons.IH [of s h] show ?thesis by simp
  next
    case (Some activeSet)
    show ?thesis
    proof (cases "single_check (find (\<lambda>d. convexArg d = arg) (filterDimensions cfg)) activeSet
        (pendingFilters s) arg vals")
      case (Some err)
      with p \<open>map_of (activeDimensions s) arg = Some activeSet\<close> show ?thesis by simp
    next
      case None
      obtain pending' h' where av: "add_values activeSet arg vals (pendingFilters s) h = (pending', h')"
        by (cases "add_values activeSet arg vals (pendingFilters s) h")
      have "snd (request_entries cfg (p # fs) s h)
          = snd (request_entries cfg fs (s\<lparr>pendingFilters := pending'\<rparr>) h')"
        using p None av \<open>map_of (activeDimensions s) arg = Some activeSet\<close> by simp
      moreover have "snd (request_entries cfg fs (s\<lparr>pendingFilters := pending'\<rparr>) h')
          = s\<lparr>pendingFilters := pendingFilters (snd (request_entries cfg fs (s\<lparr>pendingFilters := pending'\<rparr>) h'))\<rparr>"
        by (subst Cons.IH) simp
      ultimately show ?thesis by simp
    qed
  qed
qed

lemma request_entries_frame [simp]:
  "activeDimensions (snd (request_entries cfg fs s h)) = activeDimensions s"
  "refCounts (snd (request_entries cfg fs s h)) = refCounts s"
  "globalCursor (snd (request_entries cfg fs s h)) = globalCursor s"
  "currentSubscription (snd (request_entries cfg fs s h)) = currentSubscription s"
  "debounceTimer (snd (request_entries cfg fs s h)) = debounceTimer s"
  "isProcessing (snd (request_entries cfg fs s h)) = isProcessing s"
  "markedReady (snd (request_entries cfg fs s h)) = markedReady s"
  "hasRequestedGlobal (snd (request_entries cfg fs s h)) = hasRequestedGlobal s"
  "globalRefCount (snd (request_entries cfg fs s h)) = globalRefCount s"
  "messagesSinceSubscription (snd (request_entries cfg fs s h)) = messagesSinceSubscription s"
  "callbacks (snd (request_entries cfg fs s h)) = callbacks s"
  "promises (snd (request_entries cfg fs s h)) = promises s"
  "backfill (snd (request_entries cfg fs s h)) = backfill s"
  "hostCalls (snd (request_entries cfg fs s h)) = hostCalls s"
  by (subst request_entries_shape, simp)+

lemma requestFilters_frame [simp]:
  "activeDimensions (snd (requestFilters cfg s f)) = activeDimensions s"
  "globalCursor (snd (requestFilters cfg s f)) = globalCursor s"
  "currentSubscription (snd (requestFilters cfg s f)) = currentSubscription s"
  "isProcessing (snd (requestFilters cfg s f)) = isProcessing s"
  "markedReady (snd (requestFilters cfg s f)) = markedReady s"
  "messagesSinceSubscription (snd (requestFilters cfg s f)) = messagesSinceSubscription s"
  "callbacks (snd (requestFilters cfg s f)) = callbacks s"
  "backfill (snd (requestFilters cfg s f)) = backfill s"
  "hostCalls (snd (requestFilters cfg s f)) = hostCalls s"
  by (simp_all add: requestFilters_def Let_def scheduleProcessing_def case_prod_beta split: outcome.splits)

lemma cleanupUnreferencedValues_frame [simp]:
  "refCounts (snd (cleanupUnreferencedValues cfg s)) = refCounts s"
  "pendingFilters (snd (cleanupUnreferencedValues cfg s)) = pendingFilters s"
  "globalCursor (snd (cleanupUnreferencedValues cfg s)) = globalCursor s"
  "debounceTimer (snd (cleanupUnreferencedValues cfg s)) = debounceTimer s"
  "isProcessing (snd (cleanupUnreferencedValues cfg s)) = isProcessing s"
  "markedReady (snd (cleanupUnreferencedValues cfg s)) = markedReady s"
  "hasRequestedGlobal (snd (cleanupUnreferencedValues cfg s)) = hasRequestedGlobal s"
  "globalRefCount (snd (cleanupUnreferencedValues cfg s)) = globalRefCount s"
  "callbacks (snd (cleanupUnreferencedValues cfg s)) = callbacks s"
  "promises (snd (cleanupUnreferencedValues cfg s)) = promises s"
  "backfill (snd (cleanupUnreferencedValues cfg s)) = backfill s"
  "hostCalls (snd (cleanupUnreferencedValues cfg s)) = hostCalls s"
  by (simp_all add: cleanupUnreferencedValues_def Let_def case_prod_beta split: outcome.splits)

lemma releaseFilters_frame [simp]:
  "pendingFilters (snd (releaseFilters cfg s f)) = pendingFilters s"
  "globalCursor (snd (releaseFilters cfg s f)) = globalCursor s"
  "debounceTimer (snd (releaseFilters cfg s f)) = debounceTimer s"
  "isProcessing (snd (releaseFilters cfg s f)) = isProcessing s"
  "markedReady (snd (releaseFilters cfg s f)) = markedReady s"
  "callbacks (snd (releaseFilters cfg s f)) = callbacks s"
  "promises (snd (releaseFilters cfg s f)) = promises s"
  "backfill (snd (releaseFilters cfg s f)) = backfill s"
  "hostCalls (snd (releaseFilters cfg s f)) = hostCalls s"
  by (simp_all add: releaseFilters_def Let_def)

lemma handleIncomingData_frame [simp]:
  "activeDimensions (snd (handleIncomingData cfg collection s items)) = activeDimensions s"
  "refCounts (snd (handleIncomingData cfg collection s items)) = refCounts s"
  "pendingFilters (snd (handleIncomingData cfg collection s items)) = pendingFilters s"
  "debounceTimer (snd (handleIncomingData cfg collection s items)) = debounceTimer s"
  "isProcessing (snd (handleIncomingData cfg collection s items)) = isProcessing s"
  "markedReady (snd (handleIncomingData cfg collection s items)) = markedReady s"
  "hasRequestedGlobal (snd (handleIncomingData cfg collection s items)) = hasRequestedGlobal s"
  "globalRefCount (snd (handleIncomingData cfg collection s items)) = globalRefCount s"
  "callbacks (snd (handleIncomingData cfg collection s items)) = callbacks s"
  "promises (snd (handleIncomingData cfg collection s items)) = promises s"
  "backfill (snd (handleIncomingData cfg collection s items)) = backfill s"
  by (simp_all add: handleIncomingData_def Let_def case_prod_beta)

lemma finish_pass_frame [simp]:
  "activeDimensions (snd (finish_pass cfg s)) = activeDimensions s"
  "refCounts (snd (finish_pass cfg s)) = refCounts s"
  "pendingFilters (snd (finish_pass cfg s)) = pendingFilters s"
  "globalCursor (snd (finish_pass cfg s)) = globalCursor s"
  "debounceTimer (snd (finish_pass cfg s)) = debounceTimer s"
  "hasRequestedGlobal (snd (finish_pass cfg s)) = hasRequestedGlobal s"
  "globalRefCount (snd (finish_pass cfg s)) = globalRefCount s"
  "callbacks (snd (finish_pass cfg s)) = callbacks s"
  "promises (snd (finish_pass cfg s)) = promises s"
  "backfill (snd (finish_pass cfg s)) = backfill s"
  by (simp_all add: finish_pass_def Let_def case_prod_beta split: outcome.splits)

lemma timer_fires_frame [simp]:
  "refCounts (timer_fires cfg s) = refCounts s"
  "globalCursor (timer_fires cfg s) = globalCursor s"
  "hasRequestedGlobal (timer_fires cfg s) = hasRequestedGlobal s"
  "globalRefCount (timer_fires cfg s) = globalRefCount s"
  "callbacks (timer_fires cfg s) = callbacks s"
  by (simp_all add: timer_fires_def Let_def settle_def settle_with_def case_prod_beta split: option.splits)

lemma query_returns_frame [simp]:
  "activeDimensions (query_returns cfg collection res s) = activeDimensions s"
  "refCounts (query_returns cfg collection res s) = refCounts s"
  "pendingFilters (query_returns cfg collection res s) = pendingFilters s"
  "debounceTimer (query_returns cfg collection res s) = debounceTimer s"
  "hasRequestedGlobal (query_returns cfg collection res s) = hasRequestedGlobal s"
  "globalRefCount (query_returns cfg collection res s) = globalRefCount s"
  "callbacks (query_returns cfg collection res s) = callbacks s"
  by (simp_all add: query_returns_def Let_def settle_def settle_with_def case_prod_beta split: option.splits query_result.splits outcome.splits)

section \<open>Reconciliation: last write wins\<close>

lemma reconcile_writes:
  "snd (snd (reconcile cfg collection prev items cur cnt ws))
     = ws @ List.map_filter (lww_write cfg collection) items"
  by (induction items arbitrary: cur cnt ws)
     (auto simp: Let_def lww_write_def List.map_filter_simps split: option.splits)

text \<open>
  Claim C1. A batch delivered to a manager whose callbacks are set makes exactly these
  calls on the host: it opens a batch, writes for every incoming record, in delivery
  order, what the rule \<open>lww_write\<close> says (an insert when the key is absent; when the key
  is present an update if both timestamps exist and the incoming one is strictly greater
  or if only the incoming one exists, and nothing otherwise), and commits.
\<close>

theorem handleIncomingData_lww:
  "callbacks s \<Longrightarrow> items \<noteq> [] \<Longrightarrow>
   hostCalls (snd (handleIncomingData cfg collection s items))
     = hostCalls s @ [Begin] @ List.map_filter (lww_write cfg collection) items @ [Commit]"
  using reconcile_writes [of cfg collection "globalCursor s" items "globalCursor s" 0 "[]"]
  by (auto simp: handleIncomingData_def Let_def split: prod.splits)

text \<open>
  The rule at work: \<open>m1\<close> is held with timestamp 5 and \<open>m0\<close> without one. A newer \<open>m1\<close>
  is an update, an equal and an older one are dropped, \<open>m0\<close> with a timestamp is an
  update and without one is dropped, the unknown \<open>m9\<close> is an insert.
\<close>

theorem handleIncomingData_lww_witness:
  "callbacks (setCallbacks (constructor example_config))
   \<and> [(''m1'', Some (Fin 6)), (''m1'', Some (Fin 5)), (''m1'', Some (Fin 4)),
       (''m0'', Some (Fin 1)), (''m0'', None), (''m9'', None)] \<noteq> []
   \<and> hostCalls (snd (handleIncomingData example_config example_collection
        (setCallbacks (constructor example_config))
        [(''m1'', Some (Fin 6)), (''m1'', Some (Fin 5)), (''m1'', Some (Fin 4)),
         (''m0'', Some (Fin 1)), (''m0'', None), (''m9'', None)]))
     = [Begin, WriteUpdate (''m1'', Some (Fin 6)), WriteUpdate (''m0'', Some (Fin 1)),
        WriteInsert (''m9'', None), Commit]"
  using handleIncomingData_lww [of "setCallbacks (constructor example_config)"
      "[(''m1'', Some (Fin 6)), (''m1'', Some (Fin 5)), (''m1'', Some (Fin 4)),
        (''m0'', Some (Fin 1)), (''m0'', None), (''m9'', None)]"
      example_config example_collection]
  by (simp add: setCallbacks_def constructor_def example_config_def example_collection_def
      lww_write_def List.map_filter_simps)

section \<open>The global cursor\<close>

lemma js_ge_refl: "a \<noteq> NaN \<Longrightarrow> js_ge a a"
  by (simp add: js_ge_def)

lemma js_ge_trans: "js_ge c b \<Longrightarrow> js_ge b a \<Longrightarrow> js_ge c a"
  by (cases a; cases b; cases c) (auto simp: js_ge_def)

lemma js_gt_ge: "js_gt t c \<Longrightarrow> c \<noteq> NaN \<Longrightarrow> js_ge t c"
  by (cases t; cases c) (auto simp: js_ge_def)

lemma reconcile_cursor:
  "cur \<noteq> NaN \<Longrightarrow> js_ge (fst (reconcile cfg collection prev items cur cnt ws)) cur"
proof (induction items arbitrary: cur cnt ws)
  case Nil
  then show ?case by (simp add: js_ge_refl)
next
  case (Cons item items)
  define cur' where "cur' = (case updatedAt cfg item of
                       Some t \<Rightarrow> if js_gt t cur then t else cur
                     | None \<Rightarrow> cur)"
  have ge: "js_ge cur' cur"
    using Cons.prems by (auto simp: cur'_def js_ge_refl js_gt_ge split: option.splits)
  then have nn: "cur' \<noteq> NaN" by (auto simp: js_ge_def)
  have "\<exists>cnt' ws'. reconcile cfg collection prev (item # items) cur cnt ws
      = reconcile cfg collection prev items cur' cnt' ws'"
    by (auto simp: Let_def cur'_def split: option.splits)
  then obtain cnt' ws' where "reconcile cfg collection prev (item # items) cur cnt ws
      = reconcile cfg collection prev items cur' cnt' ws'" by blast
  with Cons.IH [OF nn, of cnt' ws'] ge show ?case
    by (auto intro: js_ge_trans)
qed

lemma handleIncomingData_cursor:
  "globalCursor s \<noteq> NaN \<Longrightarrow>
   js_ge (globalCursor (snd (handleIncomingData cfg collection s items))) (globalCursor s)"
  using reconcile_cursor [of "globalCursor s" cfg collection "globalCursor s" items 0 "[]"]
  by (auto simp: handleIncomingData_def Let_def js_ge_refl split: prod.splits)

lemma finish_pass_globalCursor [simp]:
  "globalCursor (snd (finish_pass cfg s)) = globalCursor s"
  by (simp add: finish_pass_def Let_def case_prod_beta split: outcome.splits)

lemma step_cursor:
  assumes "e \<noteq> Cleanup" and "globalCursor s \<noteq> NaN"
  shows "js_ge (globalCursor (step cfg s e)) (globalCursor s)"
proof (cases e)
  case (QueryReturns collection res)
  show ?thesis
  proof (cases "backfill s")
    case None
    with QueryReturns assms show ?thesis by (simp add: query_returns_def js_ge_refl)
  next
    case (Some pa)
    have "globalCursor (s\<lparr>backfill := None\<rparr>) \<noteq> NaN" using assms by simp
    from handleIncomingData_cursor [OF this]
    have "\<And>items. js_ge (globalCursor (snd (handleIncomingData cfg collection (s\<lparr>backfill := None\<rparr>) items)))
        (globalCursor s)" by simp
    with Some QueryReturns assms show ?thesis
      by (simp add: query_returns_def Let_def settle_def settle_with_def case_prod_beta js_ge_refl
          split: query_result.splits outcome.splits)
  qed
next
  case (SubscriptionDelivers collection items)
  with assms handleIncomingData_cursor [of s cfg collection items] show ?thesis
    by (simp add: subscription_delivers_def js_ge_refl)
qed (use assms in \<open>simp_all add: js_ge_refl setCallbacks_def\<close>)

lemma run_cursor:
  "Cleanup \<notin> set evs \<Longrightarrow> globalCursor s \<noteq> NaN
    \<Longrightarrow> js_ge (globalCursor (run cfg s evs)) (globalCursor s)"
proof (induction evs arbitrary: s)
  case Nil
  then show ?case by (simp add: run_def js_ge_refl)
next
  case (Cons e evs)
  have ge: "js_ge (globalCursor (step cfg s e)) (globalCursor s)"
    using Cons.prems by (intro step_cursor) auto
  then have "globalCursor (step cfg s e) \<noteq> NaN" by (auto simp: js_ge_def)
  with Cons have "js_ge (globalCursor (run cfg (step cfg s e) evs)) (globalCursor (step cfg s e))"
    by simp
  with ge show ?case by (auto simp: run_def intro: js_ge_trans)
qed

text \<open>
  Claim C5. Along every run of a manager that is not torn down (requests, releases, timer
  firings, backfill results and subscription deliveries in any order, with any timestamps
  in the delivered records), the global cursor never decreases: after more events it is
  greater than or equal to what it was before them. The cursor of a new manager is 0;
  the hypothesis on the starting cursor holds for it and is kept by every event.
\<close>

theorem globalCursor_monotone:
  assumes "globalCursor s \<noteq> NaN" and "Cleanup \<notin> set evs" and "Cleanup \<notin> set later"
  shows "js_ge (globalCursor (run cfg s (evs @ later))) (globalCursor (run cfg s evs))"
proof -
  have "js_ge (globalCursor (run cfg s evs)) (globalCursor s)"
    using assms by (intro run_cursor)
  then have "globalCursor (run cfg s evs) \<noteq> NaN" by (auto simp: js_ge_def)
  with assms(3) have "js_ge (globalCursor (run cfg (run cfg s evs) later)) (globalCursor (run cfg s evs))"
    by (intro run_cursor)
  then show ?thesis by (simp add: run_def)
qed

text \<open>
  A backfill brings timestamps 5 and 3, a later delivery brings timestamp 2: the cursor
  stays where the backfill left it.
\<close>

theorem globalCursor_monotone_witness:
  "globalCursor (constructor example_config) \<noteq> NaN
   \<and> Cleanup \<notin> set [SetCallbacks, RequestFilters [(''channelIds'', [VStr ''c1''])], TimerFires,
         QueryReturns empty_collection (QueryItems [(''m1'', Some (Fin 5)), (''m2'', Some (Fin 3))])]
   \<and> Cleanup \<notin> set [SubscriptionDelivers empty_collection [(''m3'', Some (Fin 2))]]
   \<and> js_ge
       (globalCursor (run example_config (constructor example_config)
          ([SetCallbacks, RequestFilters [(''channelIds'', [VStr ''c1''])], TimerFires,
            QueryReturns empty_collection (QueryItems [(''m1'', Some (Fin 5)), (''m2'', Some (Fin 3))])]
           @ [SubscriptionDelivers empty_collection [(''m3'', Some (Fin 2))]])))
       (globalCursor (run example_config (constructor example_config)
          [SetCallbacks, RequestFilters [(''channelIds'', [VStr ''c1''])], TimerFires,
           QueryReturns empty_collection (QueryItems [(''m1'', Some (Fin 5)), (''m2'', Some (Fin 3))])]))"
  using globalCursor_monotone [of "constructor example_config"
      "[SetCallbacks, RequestFilters [(''channelIds'', [VStr ''c1''])], TimerFires,
        QueryReturns empty_collection (QueryItems [(''m1'', Some (Fin 5)), (''m2'', Some (Fin 3))])]"
      "[SubscriptionDelivers empty_collection [(''m3'', Some (Fin 2))]]" example_config]
  by (simp add: constructor_def)

section \<open>loadSubset without extractable values\<close>

lemma extractMultiple_loop_none:
  "\<forall>dim \<in> set dims. extractFilterValues options (filterField dim) = []
    \<Longrightarrow> extractMultiple_loop options dims result = result"
  by (induction dims arbitrary: result) (simp_all add: Let_def)

text \<open>
  Claim C10. With at least one dimension configured, a \<open>loadSubset\<close> whose predicate
  gives no value for any dimension returns a promise that is already resolved and the
  state it was called in: no reference count, no pending value, no timer.
\<close>

theorem loadSubset_nothing_extracted:
  assumes "filterDimensions cfg \<noteq> []"
    and "\<forall>dim \<in> set (filterDimensions cfg). extractFilterValues options (filterField dim) = []"
  shows "loadSubset cfg s options = (Returned AlreadyResolved, s)"
  using assms
  by (simp add: loadSubset_def extractMultipleFilterValues_def extractMultiple_loop_none)

text \<open>A predicate on another field, \<^verbatim>\<open>eq(m.status, 'open')\<close>, on the one-dimension manager.\<close>

theorem loadSubset_nothing_extracted_witness:
  "loadSubset example_config (constructor example_config)
        (Some (Func ''eq'' [PropRef [''m'', ''status''], Val (VStr ''open'')]))
      = (Returned AlreadyResolved, constructor example_config)"
proof -
  have h1: "filterDimensions example_config \<noteq> []"
    by (simp add: example_config_def)
  have h2: "\<forall>dim \<in> set (filterDimensions example_config).
      extractFilterValues (Some (Func ''eq'' [PropRef [''m'', ''status''], Val (VStr ''open'')]))
        (filterField dim) = []"
    by (simp add: example_config_def extractFilterValues_def extractFromEq_def)
  from loadSubset_nothing_extracted [OF h1 h2] show ?thesis .
qed

section \<open>A request rejected by a single-valued dimension\<close>

text \<open>
  Claim C2, at a failing input. On a new manager with the dimensions of \<open>single_config\<close>,
  \<^verbatim>\<open>requestFilters({authorIds: ['u1'], pageId: ['p1', 'p2']})\<close> throws, naming the field
  \<open>pageId\<close> and the counts 0 active, 0 pending, 2 new; but the state is not the one
  before the call: the reference count of the combination has been set to 1, and \<open>u1\<close>
  has been put in the pending buffer of the first dimension.
\<close>

theorem requestFilters_single_violation_mutates:
  "requestFilters single_config (constructor single_config)
     [(''authorIds'', [VStr ''u1'']), (''pageId'', [VStr ''p1'', VStr ''p2''])]
   = (Threw (SingleViolation ''pageId'' 0 0 2),
      (constructor single_config)
        \<lparr>refCounts :=
           [(createCompositeKey [(''authorIds'', [VStr ''u1'']), (''pageId'', [VStr ''p1'', VStr ''p2''])], 1)],
         pendingFilters := [(''authorIds'', [VStr ''u1''])]\<rparr>)"
  by code_simp

section \<open>The promises of coalesced requests\<close>

lemma orphaned_requestFilters:
  "orphaned p s \<Longrightarrow> orphaned p (snd (requestFilters cfg s f))"
  by (auto simp: orphaned_def requestFilters_def Let_def scheduleProcessing_def case_prod_beta
      nth_append split: outcome.splits option.splits)

lemma orphaned_releaseFilters:
  "orphaned p s \<Longrightarrow> orphaned p (snd (releaseFilters cfg s f))"
  by (simp add: orphaned_def)

lemma orphaned_timer_fires:
  "orphaned p s \<Longrightarrow> orphaned p (timer_fires cfg s)"
  by (auto simp: orphaned_def timer_fires_def Let_def settle_def settle_with_def case_prod_beta
      split: option.splits)

lemma orphaned_query_returns:
  "orphaned p s \<Longrightarrow> orphaned p (query_returns cfg collection res s)"
  by (auto simp: orphaned_def query_returns_def Let_def settle_def settle_with_def case_prod_beta
      split: option.splits query_result.splits outcome.splits)

lemma orphaned_step: "orphaned p s \<Longrightarrow> orphaned p (step cfg s e)"
proof (cases e)
  case (SubscriptionDelivers collection items)
  assume "orphaned p s"
  with SubscriptionDelivers show ?thesis
    by (simp add: subscription_delivers_def orphaned_def)
qed (simp_all add: orphaned_requestFilters orphaned_releaseFilters orphaned_timer_fires
      orphaned_query_returns, simp_all add: orphaned_def setCallbacks_def cleanup_def)

lemma orphaned_run: "orphaned p s \<Longrightarrow> orphaned p (run cfg s evs)"
  unfolding run_def by (induction evs arbitrary: s) (simp_all add: orphaned_step)

lemma coalesced_state:
  "orphaned 0 (run example_config (constructor example_config) coalesced)
   \<and> promises (run example_config (constructor example_config) coalesced) = [Pending, Resolved]"
  by code_simp

text \<open>
  Claim C7, at a failing input. Two requests for new values arrive within one debounce
  window. Each gets a promise of its own (numbers 0 and 1). When the timer fires and the
  backfill succeeds, the second promise is resolved and the first is still pending; and
  whatever happens afterwards (\<open>evs\<close>), the first promise stays pending.
\<close>

theorem first_coalesced_promise_never_settles:
  "fst (requestFilters example_config (setCallbacks (constructor example_config))
          [(''channelIds'', [VStr ''c1''])]) = Returned (PromiseAt 0)
   \<and> fst (requestFilters example_config
          (snd (requestFilters example_config (setCallbacks (constructor example_config))
                  [(''channelIds'', [VStr ''c1''])]))
          [(''channelIds'', [VStr ''c2''])]) = Returned (PromiseAt 1)
   \<and> promises (run example_config (constructor example_config) coalesced) = [Pending, Resolved]
   \<and> promises (run example_config (constructor example_config) (coalesced @ evs)) ! 0 = Pending"
proof -
  have "orphaned 0 (run example_config (run example_config (constructor example_config) coalesced) evs)"
    using coalesced_state
      orphaned_run [of 0 "run example_config (constructor example_config) coalesced" example_config evs]
    by simp
  then have "promises (run example_config (constructor example_config) (coalesced @ evs)) ! 0 = Pending"
    by (simp add: orphaned_def run_def)
  moreover have "fst (requestFilters example_config (setCallbacks (constructor example_config))
          [(''channelIds'', [VStr ''c1''])]) = Returned (PromiseAt 0)"
    by code_simp
  moreover have "fst (requestFilters example_config
          (snd (requestFilters example_config (setCallbacks (constructor example_config))
                  [(''channelIds'', [VStr ''c1''])]))
          [(''channelIds'', [VStr ''c2''])]) = Returned (PromiseAt 1)"
    by code_simp
  ultimately show ?thesis using coalesced_state by simp
qed

section \<open>How the active sets change\<close>

lemma map_of_obj_set: "map_of (obj_set k v ps) = (map_of ps)(k \<mapsto> v)"
  by (induction ps) (auto simp: fun_eq_iff)










lemma cleanupUnreferencedValues_active:
  "activeDimensions (snd (cleanupUnreferencedValues cfg s))
     = snd (remove_unreferenced (collect_referenced cfg s) (activeDimensions s))"
  by (simp add: cleanupUnreferencedValues_def Let_def case_prod_beta split: outcome.splits)



text \<open>The state in which \<open>releaseFilters\<close> calls \<open>cleanupUnreferencedValues\<close>.\<close>

lemma releaseFilters_filtered:
  "length (filterDimensions cfg) \<noteq> 0 \<Longrightarrow>
   releaseFilters cfg s f =
     cleanupUnreferencedValues cfg
       (s\<lparr>refCounts :=
            (if (case map_of (refCounts s) (createCompositeKey f) of Some c \<Rightarrow> c | None \<Rightarrow> 0) - 1 \<le> 0
             then obj_delete (createCompositeKey f) (refCounts s)
             else obj_set (createCompositeKey f)
                    ((case map_of (refCounts s) (createCompositeKey f) of Some c \<Rightarrow> c | None \<Rightarrow> 0) - 1)
                    (refCounts s))\<rparr>)"
  by (simp add: releaseFilters_def Let_def)






section \<open>A request followed by its release\<close>

text \<open>
  Claim C4, as the code has it. \<^verbatim>\<open>releaseFilters\<close> takes the reference of the combination
  back but leaves its values in the pending buffer and the timer armed. On a fresh manager
  with the dimension \<^verbatim>\<open>channelIds\<close>, \<^verbatim>\<open>requestFilters({channelIds: ['c1']})\<close> followed at once
  by \<^verbatim>\<open>releaseFilters({channelIds: ['c1']})\<close> leaves \<open>c1\<close> pending with no reference; when
  the cycle completes, \<open>c1\<close> is in the active set and in the arguments of the live
  subscription, and the reference counts are empty as they were: the active set is not as
  it was before the pair, it holds a value that no combination references.
\<close>

theorem request_release_leaks:
  "activeDimensions (run example_config (constructor example_config) [SetCallbacks])
     = [(''channelIds'', [])]
   \<and> refCounts (run example_config (constructor example_config) [SetCallbacks]) = []
   \<and> pendingFilters
        (run example_config (constructor example_config)
           [SetCallbacks,
            RequestFilters [(''channelIds'', [VStr ''c1''])],
            ReleaseFilters [(''channelIds'', [VStr ''c1''])]])
       = [(''channelIds'', [VStr ''c1''])]
   \<and> refCounts
        (run example_config (constructor example_config)
           [SetCallbacks,
            RequestFilters [(''channelIds'', [VStr ''c1''])],
            ReleaseFilters [(''channelIds'', [VStr ''c1''])]])
       = []
   \<and> activeDimensions leaked_state = [(''channelIds'', [toKey (VStr ''c1'')])]
   \<and> refCounts leaked_state = []
   \<and> currentSubscription leaked_state
       = Some [(''after'', VNum (Fin 0)), (''channelIds'', VArr [VStr ''c1''])]"
  by code_simp

section \<open>Values that stay active after a release\<close>

text \<open>
  A composite key prints the sorted entries of its combination, so parsing it gives them
  back; the referenced keys of a dimension are then the stable keys of the combinations
  that have an entry in the reference counts.
\<close>

lemma createCompositeKey_sorted_entries:
  "createCompositeKey filters =
     JSON_stringify (JObj (map (map_prod id (\<lambda>keys. JArr (map JStr keys))) (sorted_entries filters)))"
  by (simp add: createCompositeKey_def sorted_entries_def Let_def)

lemma map_of_reduce:
  "map_of (foldl (\<lambda>acc key.
              case map_of filters key of
                Some vals \<Rightarrow> obj_set key (sort (map toKey vals)) acc
              | None \<Rightarrow> acc) acc ks) arg
   = (if arg \<in> set ks then
        (case map_of filters arg of
           Some vals \<Rightarrow> Some (sort (map toKey vals))
         | None \<Rightarrow> map_of acc arg)
      else map_of acc arg)"
  by (induction ks arbitrary: acc) (auto simp: map_of_obj_set split: option.splits)

lemma map_of_sorted_entries:
  "map_of (sorted_entries filters) arg
     = map_option (\<lambda>vals. sort (map toKey vals)) (map_of filters arg)"
proof (cases "map_of filters arg")
  case None
  then show ?thesis by (simp add: sorted_entries_def map_of_reduce)
next
  case (Some vals)
  then have "arg \<in> fst ` set filters" by (force dest: map_of_SomeD)
  with Some show ?thesis by (simp add: sorted_entries_def map_of_reduce)
qed

lemma map_fst_obj_set:
  "map fst (obj_set k v ps) = (if k \<in> fst ` set ps then map fst ps else map fst ps @ [k])"
  by (induction ps) auto

lemma distinct_obj_set:
  "distinct (map fst ps) \<Longrightarrow> distinct (map fst (obj_set k v ps))"
  by (simp add: map_fst_obj_set)

lemma distinct_reduce:
  "distinct (map fst acc) \<Longrightarrow>
   distinct (map fst (foldl (\<lambda>acc key.
              case map_of filters key of
                Some vals \<Rightarrow> obj_set key (sort (map toKey vals)) acc
              | None \<Rightarrow> acc) acc ks))"
  by (induction ks arbitrary: acc) (auto simp: distinct_obj_set split: option.splits)

lemma distinct_sorted_entries: "distinct (map fst (sorted_entries filters))"
  by (simp add: sorted_entries_def distinct_reduce)

lemma set_add_serialized:
  "set (add_serialized (map JStr ks) r) = set r \<union> set ks"
  by (induction ks arbitrary: r) (auto simp: set_add_def)

lemma ref_entries_None:
  "map_of refs arg = None \<Longrightarrow>
   map_of (ref_entries (map (map_prod id (\<lambda>keys. JArr (map JStr keys))) ce) refs) arg = None"
proof (induction ce arbitrary: refs)
  case Nil
  then show ?case by simp
next
  case (Cons p ce)
  obtain a ks where p: "p = (a, ks)" by (cases p)
  show ?case
  proof (cases "map_of refs a")
    case None
    with p Cons show ?thesis by simp
  next
    case (Some refSet)
    then have "a \<noteq> arg" using Cons.prems by auto
    then have "map_of (obj_set a (add_serialized (map JStr ks) refSet) refs) arg = None"
      using Cons.prems by (simp add: map_of_obj_set)
    from Cons.IH [OF this] p Some show ?thesis by simp
  qed
qed

lemma ref_entries_Some:
  "distinct (map fst ce) \<Longrightarrow> map_of refs arg = Some r \<Longrightarrow>
   \<exists>r'. map_of (ref_entries (map (map_prod id (\<lambda>keys. JArr (map JStr keys))) ce) refs) arg = Some r'
      \<and> set r' = set r \<union> (case map_of ce arg of Some ks \<Rightarrow> set ks | None \<Rightarrow> {})"
proof (induction ce arbitrary: refs r)
  case Nil
  then show ?case by simp
next
  case (Cons p ce)
  obtain a ks where p: "p = (a, ks)" by (cases p)
  have dis: "distinct (map fst ce)" and fresh: "a \<notin> fst ` set ce"
    using Cons.prems(1) p by auto
  show ?case
  proof (cases "map_of refs a")
    case None
    then have "a \<noteq> arg" using Cons.prems(2) by auto
    with Cons.IH [OF dis Cons.prems(2)] None p show ?thesis by simp
  next
    case (Some refSet)
    show ?thesis
    proof (cases "a = arg")
      case True
      then have rs: "refSet = r" using Some Cons.prems(2) by simp
      have "map_of (obj_set a (add_serialized (map JStr ks) refSet) refs) arg
          = Some (add_serialized (map JStr ks) r)"
        using True rs by (simp add: map_of_obj_set)
      from Cons.IH [OF dis this] obtain r' where
        r': "map_of (ref_entries (map (map_prod id (\<lambda>keys. JArr (map JStr keys))) ce)
                (obj_set a (add_serialized (map JStr ks) refSet) refs)) arg = Some r'"
        "set r' = set (add_serialized (map JStr ks) r)
                    \<union> (case map_of ce arg of Some ks \<Rightarrow> set ks | None \<Rightarrow> {})"
        by blast
      have "map_of ce arg = None" using fresh True by (simp add: map_of_eq_None_iff)
      with r' True p Some show ?thesis by (simp add: set_add_serialized id_def)
    next
      case False
      then have "map_of (obj_set a (add_serialized (map JStr ks) refSet) refs) arg = Some r"
        using Cons.prems(2) by (simp add: map_of_obj_set)
      from Cons.IH [OF dis this] False p Some show ?thesis by simp
    qed
  qed
qed

lemma ref_key_composite:
  "ref_key (createCompositeKey filters) refs
     = ref_entries (map (map_prod id (\<lambda>keys. JArr (map JStr keys))) (sorted_entries filters)) refs"
  by (simp add: ref_key_def createCompositeKey_sorted_entries JSON_parse_stringify
      read_back_composite del: JSON_stringify.simps read_back.simps)

lemma ref_key_None:
  "map_of refs arg = None \<Longrightarrow> map_of (ref_key (createCompositeKey filters) refs) arg = None"
  by (simp add: ref_key_composite ref_entries_None)

lemma ref_key_Some:
  "map_of refs arg = Some r \<Longrightarrow>
   \<exists>r'. map_of (ref_key (createCompositeKey filters) refs) arg = Some r'
      \<and> set r' = set r \<union> combination_keys filters arg"
proof -
  assume "map_of refs arg = Some r"
  from ref_entries_Some [OF distinct_sorted_entries this, of filters]
  show ?thesis
    by (cases "map_of filters arg")
       (simp_all add: ref_key_composite map_of_sorted_entries combination_keys_def)
qed

lemma combination_keys_cong:
  assumes "createCompositeKey f = createCompositeKey g"
  shows "combination_keys f arg = combination_keys g arg"
proof -
  have m: "map_of [(arg, [])] arg = Some ([] :: string list)" by simp
  from ref_key_Some [OF m, of f] ref_key_Some [OF m, of g] assms show ?thesis by auto
qed

lemma collect_None:
  "well_formed_keys cks \<Longrightarrow> map_of refs arg = None \<Longrightarrow>
   map_of (foldl (\<lambda>m compositeKey. ref_key compositeKey m) refs cks) arg = None"
proof (induction cks arbitrary: refs)
  case Nil
  then show ?case by simp
next
  case (Cons ck cks)
  from Cons.prems(1) obtain f where f: "ck = createCompositeKey f"
    by (auto simp: well_formed_keys_def)
  have "well_formed_keys cks" using Cons.prems(1) by (simp add: well_formed_keys_def)
  moreover have "map_of (ref_key ck refs) arg = None"
    using Cons.prems(2) f by (simp add: ref_key_None)
  ultimately show ?case using Cons.IH by simp
qed

lemma collect_Some:
  "well_formed_keys cks \<Longrightarrow> map_of refs arg = Some r \<Longrightarrow>
   \<exists>r'. map_of (foldl (\<lambda>m compositeKey. ref_key compositeKey m) refs cks) arg = Some r'
      \<and> set r' = set r \<union> {k. \<exists>filters. createCompositeKey filters \<in> set cks
                                  \<and> k \<in> combination_keys filters arg}"
proof (induction cks arbitrary: refs r)
  case Nil
  then show ?case by simp
next
  case (Cons ck cks)
  from Cons.prems(1) obtain f where f: "ck = createCompositeKey f"
    by (auto simp: well_formed_keys_def)
  have wf: "well_formed_keys cks" using Cons.prems(1) by (simp add: well_formed_keys_def)
  from ref_key_Some [OF Cons.prems(2), of f] obtain r1 where
    r1: "map_of (ref_key ck refs) arg = Some r1" "set r1 = set r \<union> combination_keys f arg"
    using f by auto
  from Cons.IH [OF wf r1(1)] obtain r' where
    r': "map_of (foldl (\<lambda>m compositeKey. ref_key compositeKey m) (ref_key ck refs) cks) arg = Some r'"
    "set r' = set r1 \<union> {k. \<exists>filters. createCompositeKey filters \<in> set cks
                                  \<and> k \<in> combination_keys filters arg}"
    by blast
  have "{k. \<exists>filters. createCompositeKey filters \<in> set (ck # cks) \<and> k \<in> combination_keys filters arg}
      = combination_keys f arg \<union> {k. \<exists>filters. createCompositeKey filters \<in> set cks
                                  \<and> k \<in> combination_keys filters arg}"
  proof (rule set_eqI, rule iffI)
    fix k
    assume "k \<in> {k. \<exists>filters. createCompositeKey filters \<in> set (ck # cks)
                        \<and> k \<in> combination_keys filters arg}"
    then obtain g where g: "createCompositeKey g \<in> set (ck # cks)" "k \<in> combination_keys g arg"
      by blast
    show "k \<in> combination_keys f arg \<union> {k. \<exists>filters. createCompositeKey filters \<in> set cks
                                  \<and> k \<in> combination_keys filters arg}"
    proof (cases "createCompositeKey g = ck")
      case True
      then have "combination_keys g arg = combination_keys f arg"
        using f by (intro combination_keys_cong) simp
      with g show ?thesis by simp
    next
      case False
      with g show ?thesis by auto
    qed
  next
    fix k
    assume "k \<in> combination_keys f arg \<union> {k. \<exists>filters. createCompositeKey filters \<in> set cks
                                  \<and> k \<in> combination_keys filters arg}"
    then show "k \<in> {k. \<exists>filters. createCompositeKey filters \<in> set (ck # cks)
                        \<and> k \<in> combination_keys filters arg}"
      using f by auto
  qed
  with r' r1 show ?case by (simp add: Un_assoc)
qed

lemma map_of_init_active_fold:
  "map_of (foldl (\<lambda>m dim. obj_set (convexArg dim) [] m) m dims) arg
     = (if arg \<in> convexArg ` set dims then Some [] else map_of m arg)"
  by (induction dims arbitrary: m) (auto simp: map_of_obj_set)

lemma map_of_init_active:
  "map_of (init_active dims) arg = (if arg \<in> convexArg ` set dims then Some [] else None)"
  by (simp add: init_active_def map_of_init_active_fold)

lemma remove_unreferenced_all:
  "\<forall>a \<in> fst ` set act. \<exists>r. map_of refs a = Some r \<Longrightarrow>
   snd (remove_unreferenced refs act)
     = map (\<lambda>p. (fst p, filter (\<lambda>x. x \<in> set (the (map_of refs (fst p)))) (snd p))) act"
  by (induction refs act rule: remove_unreferenced.induct)
     (auto simp: Let_def split: option.splits prod.splits outcome.splits)

lemma map_of_filtered:
  "map_of (map (\<lambda>p. (fst p, g (fst p) (snd p))) act) arg = map_option (g arg) (map_of act arg)"
  by (induction act) auto

lemma referenced_of_well_formed:
  assumes "well_formed_keys (map fst (refCounts s))"
  shows "map_of (collect_referenced cfg s) arg =
     (if arg \<in> convexArg ` set (filterDimensions cfg)
      then map_of (collect_referenced cfg s) arg else None)"
    and "arg \<in> convexArg ` set (filterDimensions cfg) \<Longrightarrow>
      \<exists>r. map_of (collect_referenced cfg s) arg = Some r
        \<and> set r = {k. \<exists>filters. createCompositeKey filters \<in> fst ` set (refCounts s)
                             \<and> k \<in> combination_keys filters arg}"
proof -
  show "map_of (collect_referenced cfg s) arg =
     (if arg \<in> convexArg ` set (filterDimensions cfg)
      then map_of (collect_referenced cfg s) arg else None)"
    using collect_None [OF assms, of "init_active (filterDimensions cfg)" arg]
    by (simp add: collect_referenced_def map_of_init_active)
  assume "arg \<in> convexArg ` set (filterDimensions cfg)"
  then have "map_of (init_active (filterDimensions cfg)) arg = Some []"
    by (simp add: map_of_init_active)
  from collect_Some [OF assms this] show "\<exists>r. map_of (collect_referenced cfg s) arg = Some r
        \<and> set r = {k. \<exists>filters. createCompositeKey filters \<in> fst ` set (refCounts s)
                             \<and> k \<in> combination_keys filters arg}"
    by (simp add: collect_referenced_def)
qed


lemma set_fst_obj_delete: "fst ` set (obj_delete k R) \<subseteq> fst ` set R"
  by (auto simp: obj_delete_def)

lemma set_fst_obj_set: "fst ` set (obj_set k v R) = insert k (fst ` set R)"
  using map_fst_obj_set [of k v R] by (metis (no_types, lifting) insert_absorb list.set_map
      list.simps(15) rotate1.simps(2) set_rotate1)

lemma list_all_obj_set:
  "list_all P R \<Longrightarrow> P (k, v) \<Longrightarrow> list_all P (obj_set k v R)"
  by (induction R) auto

lemma list_all_obj_delete:
  "list_all P R \<Longrightarrow> list_all P (obj_delete k R)"
  by (simp add: obj_delete_def list_all_iff)

text \<open>
  Claim C3. After \<^verbatim>\<open>releaseFilters\<close> a key is in the active set of a dimension exactly when
  it was there before and a combination that still has a positive reference count holds it
  for that dimension. The active dimensions are configured ones, the keys of the reference
  counts were made by \<^verbatim>\<open>createCompositeKey\<close>, and the counts are positive: this is what
  \<^verbatim>\<open>requestFilters\<close> and \<^verbatim>\<open>releaseFilters\<close> leave behind when the combinations come from the
  configured dimensions.
\<close>

theorem releaseFilters_keeps_reachable:
  assumes dims: "fst ` set (activeDimensions s) \<subseteq> convexArg ` set (filterDimensions cfg)"
    and wf: "well_formed_keys (map fst (refCounts s))"
    and pos: "positive_counts s"
  shows "key \<in> active_of (snd (releaseFilters cfg s f)) arg
    \<longleftrightarrow> key \<in> active_of s arg \<and> reachable (snd (releaseFilters cfg s f)) arg key"
proof (cases "length (filterDimensions cfg) = 0")
  case True
  then have "activeDimensions s = []" using dims by simp
  moreover have "activeDimensions (snd (releaseFilters cfg s f)) = activeDimensions s"
    using True by (simp add: releaseFilters_def Let_def)
  ultimately show ?thesis by (simp add: active_of_def)
next
  case False
  let ?ck = "createCompositeKey f"
  let ?count = "(case map_of (refCounts s) ?ck of Some c \<Rightarrow> c | None \<Rightarrow> 0) - 1"
  define R1 where "R1 = (if ?count \<le> 0 then obj_delete ?ck (refCounts s)
                          else obj_set ?ck ?count (refCounts s))"
  define s1 where "s1 = s\<lparr>refCounts := R1\<rparr>"
  define s' where "s' = snd (releaseFilters cfg s f)"
  have rel: "releaseFilters cfg s f = cleanupUnreferencedValues cfg s1"
    using releaseFilters_filtered [OF False, of s f] by (simp add: s1_def R1_def)
  have R': "refCounts s' = R1" by (simp add: s'_def rel s1_def)
  have wf1: "well_formed_keys (map fst (refCounts s1))"
    unfolding well_formed_keys_def
  proof
    fix ck assume "ck \<in> set (map fst (refCounts s1))"
    then have "ck \<in> fst ` set R1" by (simp add: s1_def)
    then have "ck = ?ck \<or> ck \<in> fst ` set (refCounts s)"
      unfolding R1_def
      using set_fst_obj_delete [of ?ck "refCounts s"] set_fst_obj_set [of ?ck ?count "refCounts s"]
      by (cases "?count \<le> 0") (simp_all only: if_True if_False, blast+)
    moreover have "\<forall>k \<in> fst ` set (refCounts s). \<exists>filters. k = createCompositeKey filters"
      using wf by (simp add: well_formed_keys_def)
    ultimately show "\<exists>filters. ck = createCompositeKey filters" by blast
  qed
  have pos1: "list_all (\<lambda>p. 0 < snd p) R1"
    using pos by (simp add: positive_counts_def R1_def list_all_obj_set list_all_obj_delete)
  let ?refs = "collect_referenced cfg s1"
  have present: "\<forall>a \<in> fst ` set (activeDimensions s1). \<exists>r. map_of ?refs a = Some r"
  proof
    fix a assume "a \<in> fst ` set (activeDimensions s1)"
    then have "a \<in> convexArg ` set (filterDimensions cfg)" using dims by (auto simp: s1_def)
    from referenced_of_well_formed(2) [OF wf1 this] show "\<exists>r. map_of ?refs a = Some r" by blast
  qed
  have act: "activeDimensions s'
      = map (\<lambda>p. (fst p, filter (\<lambda>x. x \<in> set (the (map_of ?refs (fst p)))) (snd p)))
          (activeDimensions s)"
    using remove_unreferenced_all [OF present]
    by (simp add: s'_def rel cleanupUnreferencedValues_active s1_def)
  have reach: "reachable s' arg key
      \<longleftrightarrow> (\<exists>filters. createCompositeKey filters \<in> fst ` set R1 \<and> key \<in> combination_keys filters arg)"
  proof
    assume "reachable s' arg key"
    then show "\<exists>filters. createCompositeKey filters \<in> fst ` set R1 \<and> key \<in> combination_keys filters arg"
      unfolding reachable_def R' by force
  next
    assume "\<exists>filters. createCompositeKey filters \<in> fst ` set R1 \<and> key \<in> combination_keys filters arg"
    then obtain g c where g: "(createCompositeKey g, c) \<in> set R1" "key \<in> combination_keys g arg"
      by auto
    then have "0 < c" using pos1 by (auto simp: list_all_iff)
    with g show "reachable s' arg key" unfolding reachable_def R' by blast
  qed
  show ?thesis
  proof (cases "map_of (activeDimensions s) arg")
    case None
    then show ?thesis
      unfolding s'_def [symmetric]
      by (simp add: active_of_def act map_of_filtered [where g = "\<lambda>a xs. filter (\<lambda>x. x \<in> set (the (map_of ?refs a))) xs"])
  next
    case (Some xs)
    then have "arg \<in> fst ` set (activeDimensions s)" by (force dest: map_of_SomeD)
    then have "arg \<in> convexArg ` set (filterDimensions cfg)" using dims by auto
    from referenced_of_well_formed(2) [OF wf1 this] obtain r where
      r: "map_of ?refs arg = Some r"
      "set r = {k. \<exists>filters. createCompositeKey filters \<in> fst ` set (refCounts s1)
                             \<and> k \<in> combination_keys filters arg}"
      by blast
    have "active_of s' arg = set (filter (\<lambda>x. x \<in> set r) xs)"
      using Some r(1)
      by (simp add: active_of_def act map_of_filtered [where g = "\<lambda>a xs. filter (\<lambda>x. x \<in> set (the (map_of ?refs a))) xs"])
    moreover have "refCounts s1 = R1" by (simp add: s1_def)
    ultimately show ?thesis
      unfolding s'_def [symmetric] using Some r(2) reach
      by (auto simp: active_of_def)
  qed
qed

text \<open>
  Both \<^verbatim>\<open>{channelIds: ['c1']}\<close> and \<^verbatim>\<open>{channelIds: ['c1', 'c2']}\<close> are referenced; the first is
  released and \<open>c1\<close> stays active, still held by the second.
\<close>

lemma shared_state_refCounts:
  "refCounts shared_state
     = [(createCompositeKey [(''channelIds'', [VStr ''c1''])], 1),
        (createCompositeKey [(''channelIds'', [VStr ''c1'', VStr ''c2''])], 1)]"
  by code_simp

lemma shared_state_released:
  "refCounts (snd (releaseFilters example_config shared_state [(''channelIds'', [VStr ''c1''])]))
     = [(createCompositeKey [(''channelIds'', [VStr ''c1'', VStr ''c2''])], 1)]"
  by code_simp

lemma shared_state_active:
  "activeDimensions shared_state
     = [(''channelIds'', [toKey (VStr ''c1''), toKey (VStr ''c2'')])]"
  by code_simp

theorem releaseFilters_keeps_reachable_witness:
  "toKey (VStr ''c1'')
     \<in> active_of (snd (releaseFilters example_config shared_state
                          [(''channelIds'', [VStr ''c1''])])) ''channelIds''"
proof -
  let ?f = "[(''channelIds'', [VStr ''c1''])]"
  let ?g = "[(''channelIds'', [VStr ''c1'', VStr ''c2''])]"
  have dims: "fst ` set (activeDimensions shared_state)
                \<subseteq> convexArg ` set (filterDimensions example_config)"
    by (simp add: shared_state_active example_config_def)
  have wf: "well_formed_keys (map fst (refCounts shared_state))"
    unfolding well_formed_keys_def shared_state_refCounts by auto
  have pos: "positive_counts shared_state"
    by (simp add: positive_counts_def shared_state_refCounts)
  have before: "toKey (VStr ''c1'') \<in> active_of shared_state ''channelIds''"
    by (simp add: active_of_def shared_state_active)
  have "toKey (VStr ''c1'') \<in> combination_keys ?g ''channelIds''"
    by (simp add: combination_keys_def)
  then have after: "reachable (snd (releaseFilters example_config shared_state ?f))
                      ''channelIds'' (toKey (VStr ''c1''))"
    unfolding reachable_def shared_state_released by fastforce
  from before after show ?thesis
    by (simp add: releaseFilters_keeps_reachable [OF dims wf pos])
qed

end
